theory Spec2Isabelle
  imports Complex_Main
begin

section \<open>Python primitives\<close>

text \<open>
  The operations of \<^verbatim>\<open>hash_table.py\<close> raise in four ways: a division or modulus by
  zero (\<^verbatim>\<open>ZeroDivisionError\<close>), a list access out of range (\<^verbatim>\<open>IndexError\<close>),
  \<^verbatim>\<open>math.log2\<close> of a negative number (\<^verbatim>\<open>ValueError\<close>) and \<^verbatim>\<open>int\<close> of an infinite float
  (\<^verbatim>\<open>OverflowError\<close>). Every function that can raise returns \<open>error + 'a\<close>, with \<open>Inl\<close>
  for the exception.
\<close>

datatype error = ZeroDivisionError | IndexError | ValueError | OverflowError

definition ebind :: "error + 'a \<Rightarrow> ('a \<Rightarrow> error + 'b) \<Rightarrow> error + 'b" where
  "ebind m f = (case m of Inl e \<Rightarrow> Inl e | Inr x \<Rightarrow> f x)"

text \<open>Python's \<^verbatim>\<open>a % b\<close> on integers: the sign follows the divisor, as HOL's \<open>mod\<close>.\<close>

definition py_mod :: "int \<Rightarrow> int \<Rightarrow> error + int" where
  "py_mod a b = (if b = 0 then Inl ZeroDivisionError else Inr (a mod b))"

text \<open>\<^verbatim>\<open>xs[i]\<close> for an index that is never negative here.\<close>

definition getitem :: "'a list \<Rightarrow> nat \<Rightarrow> error + 'a" where
  "getitem xs i = (if i < length xs then Inr (xs ! i) else Inl IndexError)"

text \<open>
  \<open>ilog2 n\<close> is the integer part of the binary logarithm of \<open>n \<ge> 1\<close>. The source
  computes \<^verbatim>\<open>int(math.log2(x))\<close> in floating point; the model takes the logarithm
  exactly.
\<close>

fun ilog2 :: "nat \<Rightarrow> nat" where
  "ilog2 n = (if n < 2 then 0 else Suc (ilog2 (n div 2)))"

declare ilog2.simps [simp del]

text \<open>
  \<^verbatim>\<open>int(math.log2(math.log2(size + 1) + 1))\<close>. For a real \<open>x \<ge> 0\<close> and a natural \<open>k\<close>,
  \<open>2 ^ k \<le> x + 1\<close> holds iff \<open>2 ^ k \<le> \<lfloor>x\<rfloor> + 1\<close>, so the outer integer part can be taken
  of the integer part of the inner logarithm.
\<close>

definition log_log :: "nat \<Rightarrow> nat" where
  "log_log sz = ilog2 (ilog2 (sz + 1) + 1)"

section \<open>Keys, values and slots\<close>

text \<open>
  What the table takes from the Python runtime is a parameter of the model:
  \<^item> \<open>hash_key\<close> is \<^verbatim>\<open>hash(key)\<close> and \<open>hash_str\<close> is \<^verbatim>\<open>hash(str(key))\<close>;
  \<^item> \<open>key_eq a b\<close> is \<^verbatim>\<open>a == b\<close> on keys, with the stored key on the left as in
    \<^verbatim>\<open>self._table[pos][0] == key\<close>. It need not be reflexive (\<^verbatim>\<open>float('nan')\<close>) and it
    may hold between different keys (\<^verbatim>\<open>1 == 1.0\<close>, whose strings and so whose second
    hashes differ);
  \<^item> \<open>int_log2_inv H delta\<close> is \<^verbatim>\<open>int(math.log2(1/delta))\<close> and \<open>int_log2_inv_3 H delta\<close> is
    \<^verbatim>\<open>int(math.log2(1/delta) / 3)\<close>, computed in floating point, with whatever they
    raise (\<^verbatim>\<open>ZeroDivisionError\<close> for \<^verbatim>\<open>delta = 0\<close>, \<^verbatim>\<open>ValueError\<close> for a negative
    \<^verbatim>\<open>delta\<close>, \<^verbatim>\<open>OverflowError\<close> when \<^verbatim>\<open>1/delta\<close> is infinite).
  A stored value is any Python object, \<^verbatim>\<open>None\<close> included: values have type \<open>'v option\<close>,
  with \<open>None\<close> for Python's \<^verbatim>\<open>None\<close>. A slot is \<^verbatim>\<open>None\<close> or a pair \<^verbatim>\<open>(key, value)\<close>.
\<close>

record 'k runtime =
  hash_key :: "'k \<Rightarrow> int"
  hash_str :: "'k \<Rightarrow> int"
  key_eq :: "'k \<Rightarrow> 'k \<Rightarrow> bool"
  int_log2_inv :: "rat \<Rightarrow> error + int"
  int_log2_inv_3 :: "rat \<Rightarrow> error + int"

type_synonym ('k, 'v) slot = "('k \<times> 'v option) option"

section \<open>SubArray\<close>

record ('k, 'v) subarray =
  sub_size :: nat
  sub_table :: "('k, 'v) slot list"
  sub_count :: nat

definition SubArray :: "nat \<Rightarrow> ('k, 'v) subarray" where
  "SubArray sz = \<lparr>sub_size = sz, sub_table = replicate sz None, sub_count = 0\<rparr>"

definition sub_hash :: "'k runtime \<Rightarrow> ('k, 'v) subarray \<Rightarrow> 'k \<Rightarrow> nat \<Rightarrow> error + nat" where
  "sub_hash H s key attempt =
     ebind (py_mod (hash_key H key) (int (sub_size s))) (\<lambda>h1.
     ebind (py_mod (hash_str H key) (int (sub_size s) - 1)) (\<lambda>r.
     ebind (py_mod (h1 + int attempt * (1 + r)) (int (sub_size s))) (\<lambda>p.
     Inr (nat p))))"


text \<open>The first loop of \<^verbatim>\<open>SubArray.insert\<close>: the position that holds the key, if the
  scan meets it before an empty slot.\<close>

fun sub_insert_find ::
  "'k runtime \<Rightarrow> ('k, 'v) subarray \<Rightarrow> 'k \<Rightarrow> nat list \<Rightarrow> error + nat option" where
  "sub_insert_find H s key [] = Inr None"
| "sub_insert_find H s key (i # is) =
     ebind (sub_hash H s key i) (\<lambda>pos.
     ebind (getitem (sub_table s) pos) (\<lambda>slot.
       case slot of
         None \<Rightarrow> Inr None
       | Some (k', _) \<Rightarrow>
           if key_eq H k' key then Inr (Some pos) else sub_insert_find H s key is))"

text \<open>The second loop: the first empty position of the probe sequence.\<close>

fun sub_insert_place ::
  "'k runtime \<Rightarrow> ('k, 'v) subarray \<Rightarrow> 'k \<Rightarrow> nat list \<Rightarrow> error + nat option" where
  "sub_insert_place H s key [] = Inr None"
| "sub_insert_place H s key (i # is) =
     ebind (sub_hash H s key i) (\<lambda>pos.
     ebind (getitem (sub_table s) pos) (\<lambda>slot.
       case slot of
         None \<Rightarrow> Inr (Some pos)
       | Some _ \<Rightarrow> sub_insert_place H s key is))"

definition sub_insert ::
  "'k runtime \<Rightarrow> ('k, 'v) subarray \<Rightarrow> 'k \<Rightarrow> 'v option \<Rightarrow> int
     \<Rightarrow> error + (bool \<times> ('k, 'v) subarray)" where
  "sub_insert H s key val max_probes =
     ebind (sub_insert_find H s key [0..<nat max_probes]) (\<lambda>found.
       case found of
         Some pos \<Rightarrow> Inr (True, s\<lparr>sub_table := (sub_table s)[pos := Some (key, val)]\<rparr>)
       | None \<Rightarrow>
           ebind (sub_insert_place H s key [0..<nat max_probes]) (\<lambda>free.
             case free of
               Some pos \<Rightarrow>
                 Inr (True, s\<lparr>sub_table := (sub_table s)[pos := Some (key, val)],
                              sub_count := sub_count s + 1\<rparr>)
             | None \<Rightarrow> Inr (False, s)))"

fun sub_search_scan ::
  "'k runtime \<Rightarrow> ('k, 'v) subarray \<Rightarrow> 'k \<Rightarrow> nat list \<Rightarrow> error + 'v option" where
  "sub_search_scan H s key [] = Inr None"
| "sub_search_scan H s key (i # is) =
     ebind (sub_hash H s key i) (\<lambda>pos.
     ebind (getitem (sub_table s) pos) (\<lambda>slot.
       case slot of
         None \<Rightarrow> Inr None
       | Some (k', v) \<Rightarrow> if key_eq H k' key then Inr v else sub_search_scan H s key is))"

definition sub_search :: "'k runtime \<Rightarrow> ('k, 'v) subarray \<Rightarrow> 'k \<Rightarrow> error + 'v option" where
  "sub_search H s key = sub_search_scan H s key [0..<sub_size s]"

section \<open>LastSubArray\<close>

record ('k, 'v) lastsubarray =
  last_size :: nat
  b_size :: nat
  c_size :: nat
  bucket_size :: nat
  part_b :: "('k, 'v) slot list"
  part_c :: "('k, 'v) slot list list"
  last_count :: nat

text \<open>The number of buckets is \<^verbatim>\<open>(c_size + bucket_size - 1) // bucket_size\<close>, which
  raises when the bucket size is zero (only for \<open>size = 0\<close>).\<close>

definition LastSubArray :: "nat \<Rightarrow> error + ('k, 'v) lastsubarray" where
  "LastSubArray sz =
     (let bs = sz div 2; cs = sz - bs; bk = 2 * log_log sz in
      if bk = 0 then Inl ZeroDivisionError
      else Inr \<lparr>last_size = sz, b_size = bs, c_size = cs, bucket_size = bk,
                part_b = replicate bs None,
                part_c = replicate ((cs + bk - 1) div bk) (replicate bk None),
                last_count = 0\<rparr>)"

definition hash_b :: "'k runtime \<Rightarrow> ('k, 'v) lastsubarray \<Rightarrow> 'k \<Rightarrow> nat \<Rightarrow> error + nat" where
  "hash_b H la key attempt =
     ebind (py_mod (hash_key H key) (int (b_size la))) (\<lambda>h1.
     ebind (py_mod (hash_str H key) (int (b_size la) - 1)) (\<lambda>r.
     ebind (py_mod (h1 + int attempt * (1 + r)) (int (b_size la))) (\<lambda>p.
     Inr (nat p))))"

definition hash_c :: "'k runtime \<Rightarrow> ('k, 'v) lastsubarray \<Rightarrow> 'k \<Rightarrow> error + (nat \<times> nat)" where
  "hash_c H la key =
     (let num_buckets = int (length (part_c la)) in
      ebind (py_mod (hash_key H key) num_buckets) (\<lambda>h1.
      ebind (py_mod (hash_str H key) (num_buckets - 1)) (\<lambda>r.
      ebind (py_mod (h1 + 1 + r) num_buckets) (\<lambda>h2.
      Inr (nat h1, nat h2)))))"

text \<open>The scan of part B for the key, over all attempts.\<close>

fun last_find_b ::
  "'k runtime \<Rightarrow> ('k, 'v) lastsubarray \<Rightarrow> 'k \<Rightarrow> nat list \<Rightarrow> error + nat option" where
  "last_find_b H la key [] = Inr None"
| "last_find_b H la key (i # is) =
     ebind (hash_b H la key i) (\<lambda>pos.
     ebind (getitem (part_b la) pos) (\<lambda>slot.
       case slot of
         None \<Rightarrow> last_find_b H la key is
       | Some (k', _) \<Rightarrow>
           if key_eq H k' key then Inr (Some pos) else last_find_b H la key is))"

text \<open>The first index of a bucket that holds the key.\<close>

fun bucket_find :: "'k runtime \<Rightarrow> 'k \<Rightarrow> ('k, 'v) slot list \<Rightarrow> nat option" where
  "bucket_find H key [] = None"
| "bucket_find H key (item # items) =
     (case item of
        None \<Rightarrow> map_option Suc (bucket_find H key items)
      | Some (k', _) \<Rightarrow>
          if key_eq H k' key then Some 0 else map_option Suc (bucket_find H key items))"

text \<open>The first empty position of part B among the attempts.\<close>

fun last_place_b ::
  "'k runtime \<Rightarrow> ('k, 'v) lastsubarray \<Rightarrow> 'k \<Rightarrow> nat list \<Rightarrow> error + nat option" where
  "last_place_b H la key [] = Inr None"
| "last_place_b H la key (i # is) =
     ebind (hash_b H la key i) (\<lambda>pos.
     ebind (getitem (part_b la) pos) (\<lambda>slot.
       case slot of
         None \<Rightarrow> Inr (Some pos)
       | Some _ \<Rightarrow> last_place_b H la key is))"

definition empty_count :: "('k, 'v) slot list \<Rightarrow> nat" where
  "empty_count bucket = length (filter (\<lambda>x. x = None) bucket)"

text \<open>The first empty index of the target bucket, over \<^verbatim>\<open>range(bucket_size)\<close>.\<close>

fun bucket_place :: "('k, 'v) slot list \<Rightarrow> nat list \<Rightarrow> error + nat option" where
  "bucket_place bucket [] = Inr None"
| "bucket_place bucket (i # is) =
     ebind (getitem bucket i) (\<lambda>slot.
       case slot of
         None \<Rightarrow> Inr (Some i)
       | Some _ \<Rightarrow> bucket_place bucket is)"

text \<open>The bucket that the placement in part C writes to.\<close>

definition target_bucket :: "('k, 'v) slot list list \<Rightarrow> nat \<Rightarrow> nat \<Rightarrow> nat" where
  "target_bucket c b1 b2 =
     (if empty_count (c ! b1) \<ge> empty_count (c ! b2) then b1 else b2)"

text \<open>Lines 164 to 183: the placement in part C.\<close>

definition last_insert_c ::
  "'k runtime \<Rightarrow> ('k, 'v) lastsubarray \<Rightarrow> 'k \<Rightarrow> 'v option
     \<Rightarrow> error + (bool \<times> ('k, 'v) lastsubarray)" where
  "last_insert_c H la key val =
     ebind (hash_c H la key) (\<lambda>(b1, b2).
     ebind (getitem (part_c la) b1) (\<lambda>bucket1.
     ebind (getitem (part_c la) b2) (\<lambda>bucket2.
       let t = target_bucket (part_c la) b1 b2 in
       ebind (bucket_place (part_c la ! t) [0..<bucket_size la]) (\<lambda>free.
         case free of
           Some i \<Rightarrow>
             Inr (True, la\<lparr>part_c := (part_c la)[t := (part_c la ! t)[i := Some (key, val)]],
                           last_count := last_count la + 1\<rparr>)
         | None \<Rightarrow> Inr (False, la)))))"

definition last_insert ::
  "'k runtime \<Rightarrow> ('k, 'v) lastsubarray \<Rightarrow> 'k \<Rightarrow> 'v option
     \<Rightarrow> error + (bool \<times> ('k, 'v) lastsubarray)" where
  "last_insert H la key val =
     (let max_attempts = log_log (last_size la) in
      ebind (last_find_b H la key [0..<max_attempts]) (\<lambda>found.
        case found of
          Some pos \<Rightarrow> Inr (True, la\<lparr>part_b := (part_b la)[pos := Some (key, val)]\<rparr>)
        | None \<Rightarrow>
            ebind (hash_c H la key) (\<lambda>(b1, b2).
            ebind (getitem (part_c la) b1) (\<lambda>bucket1.
            ebind (getitem (part_c la) b2) (\<lambda>bucket2.
              case bucket_find H key bucket1 of
                Some i \<Rightarrow>
                  Inr (True, la\<lparr>part_c := (part_c la)[b1 := bucket1[i := Some (key, val)]]\<rparr>)
              | None \<Rightarrow>
                  (case bucket_find H key bucket2 of
                     Some i \<Rightarrow>
                       Inr (True,
                            la\<lparr>part_c := (part_c la)[b2 := bucket2[i := Some (key, val)]]\<rparr>)
                   | None \<Rightarrow>
                       ebind (last_place_b H la key [0..<max_attempts]) (\<lambda>free.
                         case free of
                           Some pos \<Rightarrow>
                             Inr (True, la\<lparr>part_b := (part_b la)[pos := Some (key, val)],
                                           last_count := last_count la + 1\<rparr>)
                         | None \<Rightarrow> last_insert_c H la key val)))))))"

text \<open>The scan of part B of \<^verbatim>\<open>LastSubArray.search\<close>: \<open>Some v\<close> when the loop returns
  \<open>v\<close>, \<open>None\<close> when it ends or breaks and the search goes on in part C.\<close>

fun last_search_b ::
  "'k runtime \<Rightarrow> ('k, 'v) lastsubarray \<Rightarrow> 'k \<Rightarrow> nat list \<Rightarrow> error + 'v option option" where
  "last_search_b H la key [] = Inr None"
| "last_search_b H la key (i # is) =
     ebind (hash_b H la key i) (\<lambda>pos.
     ebind (getitem (part_b la) pos) (\<lambda>slot.
       case slot of
         None \<Rightarrow> Inr None
       | Some (k', v) \<Rightarrow>
           if key_eq H k' key then Inr (Some v) else last_search_b H la key is))"

fun bucket_search :: "'k runtime \<Rightarrow> 'k \<Rightarrow> ('k, 'v) slot list \<Rightarrow> 'v option option" where
  "bucket_search H key [] = None"
| "bucket_search H key (item # items) =
     (case item of
        None \<Rightarrow> bucket_search H key items
      | Some (k', v) \<Rightarrow> if key_eq H k' key then Some v else bucket_search H key items)"

definition last_search ::
  "'k runtime \<Rightarrow> ('k, 'v) lastsubarray \<Rightarrow> 'k \<Rightarrow> error + 'v option" where
  "last_search H la key =
     (let max_attempts = log_log (last_size la) in
      ebind (last_search_b H la key [0..<max_attempts]) (\<lambda>found.
        case found of
          Some v \<Rightarrow> Inr v
        | None \<Rightarrow>
            ebind (hash_c H la key) (\<lambda>(b1, b2).
            ebind (getitem (part_c la) b1) (\<lambda>bucket1.
            ebind (getitem (part_c la) b2) (\<lambda>bucket2.
              case bucket_search H key bucket1 of
                Some v \<Rightarrow> Inr v
              | None \<Rightarrow>
                  (case bucket_search H key bucket2 of
                     Some v \<Rightarrow> Inr v
                   | None \<Rightarrow> Inr None))))))"

section \<open>OpenAddressHashTable\<close>

record ('k, 'v) table =
  tbl_size :: int
  tbl_delta :: rat
  tbl_count :: nat
  tbl_alpha :: int
  subarrays :: "('k, 'v) subarray list"
  last_array :: "('k, 'v) lastsubarray option"

text \<open>The loop that creates the sub-arrays, with its \<^verbatim>\<open>break\<close>.\<close>

fun make_subarrays :: "int \<Rightarrow> nat list \<Rightarrow> ('k, 'v) subarray list" where
  "make_subarrays current_size [] = []"
| "make_subarrays current_size (i # is) =
     (let sz = current_size div 2 ^ i in
      if sz < 1 then [] else SubArray (nat sz) # make_subarrays current_size is)"

definition init :: "'k runtime \<Rightarrow> int \<Rightarrow> rat \<Rightarrow> error + ('k, 'v) table" where
  "init H initial_size delta =
     ebind (int_log2_inv_3 H delta) (\<lambda>a.
       let subs = make_subarrays (initial_size div 2) [0..<nat a];
           last_sz = initial_size - sum_list (map (\<lambda>arr. int (sub_size arr)) subs)
       in if last_sz > 0
          then ebind (LastSubArray (nat last_sz)) (\<lambda>la.
                 Inr \<lparr>tbl_size = initial_size, tbl_delta = delta, tbl_count = 0, tbl_alpha = a,
                      subarrays = subs, last_array = Some la\<rparr>)
          else Inr \<lparr>tbl_size = initial_size, tbl_delta = delta, tbl_count = 0, tbl_alpha = a,
                    subarrays = subs, last_array = None\<rparr>)"

definition load_factor :: "('k, 'v) table \<Rightarrow> error + rat" where
  "load_factor t =
     (if tbl_size t = 0 then Inl ZeroDivisionError
      else Inr (of_nat (tbl_count t) / of_int (tbl_size t)))"

text \<open>Lines 271 to 274: the first sub-array whose search finds the key takes the
  insert. \<open>None\<close> when no sub-array finds it.\<close>

fun insert_existing ::
  "'k runtime \<Rightarrow> rat \<Rightarrow> ('k, 'v) subarray list \<Rightarrow> 'k \<Rightarrow> 'v option
     \<Rightarrow> error + (bool \<times> ('k, 'v) subarray list) option" where
  "insert_existing H delta [] key val = Inr None"
| "insert_existing H delta (s # ss) key val =
     ebind (int_log2_inv H delta) (\<lambda>max_probes.
     ebind (sub_search H s key) (\<lambda>r.
       if r \<noteq> None
       then ebind (sub_insert H s key val max_probes) (\<lambda>(ok, s'). Inr (Some (ok, s' # ss)))
       else ebind (insert_existing H delta ss key val) (\<lambda>res.
              Inr (map_option (\<lambda>(ok, ss'). (ok, s # ss')) res))))"

text \<open>Lines 286 to 290: the first sub-array that accepts the key. \<open>None\<close> when all
  reject it.\<close>

fun insert_new ::
  "'k runtime \<Rightarrow> rat \<Rightarrow> ('k, 'v) subarray list \<Rightarrow> 'k \<Rightarrow> 'v option
     \<Rightarrow> error + ('k, 'v) subarray list option" where
  "insert_new H delta [] key val = Inr None"
| "insert_new H delta (s # ss) key val =
     ebind (int_log2_inv H delta) (\<lambda>max_probes.
     ebind (sub_insert H s key val max_probes) (\<lambda>(ok, s').
       if ok then Inr (Some (s' # ss))
       else ebind (insert_new H delta ss key val) (\<lambda>res.
              Inr (map_option (\<lambda>ss'. s' # ss') res))))"

text \<open>Lines 279 to 297: the key was not found.\<close>

definition insert_absent ::
  "'k runtime \<Rightarrow> ('k, 'v) table \<Rightarrow> 'k \<Rightarrow> 'v option \<Rightarrow> error + (bool \<times> ('k, 'v) table)" where
  "insert_absent H t key val =
     ebind (load_factor t) (\<lambda>current_load.
       if current_load \<ge> 9 / 10 then Inr (False, t)
       else
         ebind (insert_new H (tbl_delta t) (subarrays t) key val) (\<lambda>placed.
           case placed of
             Some ss' \<Rightarrow> Inr (True, t\<lparr>subarrays := ss', tbl_count := tbl_count t + 1\<rparr>)
           | None \<Rightarrow>
               (case last_array t of
                  None \<Rightarrow> Inr (False, t)
                | Some la \<Rightarrow>
                    ebind (last_insert H la key val) (\<lambda>(ok, la').
                      if ok then Inr (True, t\<lparr>last_array := Some la',
                                               tbl_count := tbl_count t + 1\<rparr>)
                      else Inr (False, t\<lparr>last_array := Some la'\<rparr>)))))"

definition tbl_insert ::
  "'k runtime \<Rightarrow> ('k, 'v) table \<Rightarrow> 'k \<Rightarrow> 'v option \<Rightarrow> error + (bool \<times> ('k, 'v) table)" where
  "tbl_insert H t key val =
     ebind (insert_existing H (tbl_delta t) (subarrays t) key val) (\<lambda>ex.
       case ex of
         Some (ok, ss') \<Rightarrow> Inr (ok, t\<lparr>subarrays := ss'\<rparr>)
       | None \<Rightarrow>
           (case last_array t of
              None \<Rightarrow> insert_absent H t key val
            | Some la \<Rightarrow>
                ebind (last_search H la key) (\<lambda>r.
                  if r \<noteq> None
                  then ebind (last_insert H la key val) (\<lambda>(ok, la').
                         Inr (ok, t\<lparr>last_array := Some la'\<rparr>))
                  else insert_absent H t key val)))"

fun search_subarrays ::
  "'k runtime \<Rightarrow> ('k, 'v) subarray list \<Rightarrow> 'k \<Rightarrow> error + 'v option" where
  "search_subarrays H [] key = Inr None"
| "search_subarrays H (s # ss) key =
     ebind (sub_search H s key) (\<lambda>result.
       if result \<noteq> None then Inr result else search_subarrays H ss key)"

definition tbl_search :: "'k runtime \<Rightarrow> ('k, 'v) table \<Rightarrow> 'k \<Rightarrow> error + 'v option" where
  "tbl_search H t key =
     ebind (search_subarrays H (subarrays t) key) (\<lambda>result.
       if result \<noteq> None then Inr result
       else (case last_array t of
               None \<Rightarrow> Inr None
             | Some la \<Rightarrow> last_search H la key))"


section \<open>A client of the table\<close>

text \<open>
  A sequence of \<^verbatim>\<open>insert\<close> calls. Every \<^verbatim>\<open>raise\<close> of the source comes before the first
  write of the call (the hash values are computed first), so a call that raises leaves the
  table as it was, and the client that catches the exception goes on with the same table.
  \<^verbatim>\<open>search\<close> and \<^verbatim>\<open>load_factor\<close> write nothing.
\<close>

fun insert_all :: "'k runtime \<Rightarrow> ('k, 'v) table \<Rightarrow> ('k \<times> 'v option) list \<Rightarrow> ('k, 'v) table" where
  "insert_all H t [] = t"
| "insert_all H t ((k, v) # kvs) =
     (case tbl_insert H t k v of
        Inl e \<Rightarrow> insert_all H t kvs
      | Inr (ok, t') \<Rightarrow> insert_all H t' kvs)"


text \<open>
  The two logarithms computed exactly, on a rational \<open>delta\<close>: \<^verbatim>\<open>1/delta\<close> raises for
  \<open>delta = 0\<close>, \<^verbatim>\<open>math.log2\<close> raises for a negative argument, and \<^verbatim>\<open>int\<close> truncates towards
  zero. CPython computes them in floating point and returns the same integers wherever
  the floating-point logarithm is not within a rounding error of an integer, as for the
  values \<^verbatim>\<open>0.1\<close> and \<^verbatim>\<open>0.5\<close> of \<open>delta\<close> in the examples below: \<^verbatim>\<open>math.log2(1/0.1)\<close> is
  \<^verbatim>\<open>3.32...\<close> and \<^verbatim>\<open>math.log2(1/0.5)\<close> is \<^verbatim>\<open>1.0\<close>. Only the examples use them.
\<close>

definition exact_log2_inv :: "rat \<Rightarrow> error + int" where
  "exact_log2_inv delta =
     (if delta = 0 then Inl ZeroDivisionError
      else if delta < 0 then Inl ValueError
      else if delta \<le> 1 then Inr (int (ilog2 (nat \<lfloor>1 / delta\<rfloor>)))
      else Inr (- int (ilog2 (nat \<lfloor>delta\<rfloor>))))"

definition exact_log2_inv_3 :: "rat \<Rightarrow> error + int" where
  "exact_log2_inv_3 delta =
     ebind (exact_log2_inv delta) (\<lambda>l. Inr (if 0 \<le> l then l div 3 else - ((- l) div 3)))"

text \<open>
  Integer keys as CPython hashes and compares them: \<^verbatim>\<open>hash(k) = k\<close> for a small integer,
  and \<^verbatim>\<open>==\<close> is equality. The hash of the string of the key is taken to be 0.
\<close>

definition ex_runtime :: "int runtime" where
  "ex_runtime = \<lparr>hash_key = (\<lambda>k. k), hash_str = (\<lambda>k. 0), key_eq = (\<lambda>a b. a = b),
     int_log2_inv = exact_log2_inv, int_log2_inv_3 = exact_log2_inv_3\<rparr>"

text \<open>
  Numbers as keys: the integer \<open>n\<close>, the float \<open>n.0\<close> and \<^verbatim>\<open>float('nan')\<close>. CPython
  gives equal numbers equal hashes (\<^verbatim>\<open>hash(1) == hash(1.0) == 1\<close>) and compares them by
  value (\<^verbatim>\<open>1 == 1.0\<close>); \<^verbatim>\<open>nan\<close> is equal to nothing, itself included. The strings of the
  three kinds of key differ (\<^verbatim>\<open>'1'\<close>, \<^verbatim>\<open>'1.0'\<close>, \<^verbatim>\<open>'nan'\<close>); their hashes are taken to be
  0, 1 and 0, and the hash of \<^verbatim>\<open>nan\<close> to be 0.
\<close>

datatype num_key = IntKey int | FloatKey int | NanKey

fun num_value :: "num_key \<Rightarrow> int option" where
  "num_value (IntKey n) = Some n"
| "num_value (FloatKey n) = Some n"
| "num_value NanKey = None"

fun num_str_hash :: "num_key \<Rightarrow> int" where
  "num_str_hash (IntKey n) = 0"
| "num_str_hash (FloatKey n) = 1"
| "num_str_hash NanKey = 0"

definition num_runtime :: "num_key runtime" where
  "num_runtime =
     \<lparr>hash_key = (\<lambda>k. case num_value k of Some n \<Rightarrow> n | None \<Rightarrow> 0),
      hash_str = num_str_hash,
      key_eq = (\<lambda>a b. num_value a \<noteq> None \<and> num_value a = num_value b),
      int_log2_inv = exact_log2_inv, int_log2_inv_3 = exact_log2_inv_3\<rparr>"

text \<open>The tables that \<^verbatim>\<open>OpenAddressHashTable(5, 0.5)\<close>, with integer keys and with
  numbers as keys, and \<^verbatim>\<open>OpenAddressHashTable(10, 0.1)\<close> construct.\<close>

definition ex_table_5 :: "(int, nat) table" where
  "ex_table_5 = \<lparr>tbl_size = 5, tbl_delta = 1 / 2, tbl_count = 0, tbl_alpha = 0, subarrays = [],
     last_array = Some \<lparr>last_size = 5, b_size = 2, c_size = 3, bucket_size = 2,
       part_b = [None, None], part_c = [[None, None], [None, None]], last_count = 0\<rparr>\<rparr>"

definition num_table_5 :: "(num_key, nat) table" where
  "num_table_5 = \<lparr>tbl_size = 5, tbl_delta = 1 / 2, tbl_count = 0, tbl_alpha = 0, subarrays = [],
     last_array = Some \<lparr>last_size = 5, b_size = 2, c_size = 3, bucket_size = 2,
       part_b = [None, None], part_c = [[None, None], [None, None]], last_count = 0\<rparr>\<rparr>"

definition ex_table_10 :: "(int, nat) table" where
  "ex_table_10 = \<lparr>tbl_size = 10, tbl_delta = 1 / 10, tbl_count = 0, tbl_alpha = 1,
     subarrays = [\<lparr>sub_size = 5, sub_table = [None, None, None, None, None], sub_count = 0\<rparr>],
     last_array = Some \<lparr>last_size = 5, b_size = 2, c_size = 3, bucket_size = 2,
       part_b = [None, None], part_c = [[None, None], [None, None]], last_count = 0\<rparr>\<rparr>"

section \<open>The probe sequence as the specification words it\<close>

text \<open>
  Section 4.1 of the specification: two hash values \<open>h1 = hash1(k) mod capacity\<close> and
  \<open>h2 = 1 + (h2raw(k) mod (capacity - 1))\<close>, and the probe position
  \<open>(h1 + i * h2) mod capacity\<close>.
\<close>

definition probe_position :: "int \<Rightarrow> int \<Rightarrow> int \<Rightarrow> int \<Rightarrow> int" where
  "probe_position hash1 hash2raw capacity i =
     (let h1 = hash1 mod capacity; h2 = 1 + hash2raw mod (capacity - 1)
      in (h1 + i * h2) mod capacity)"

section \<open>Invariants\<close>

text \<open>
  Key equality is the identity: \<^verbatim>\<open>a == b\<close> exactly when \<open>a\<close> and \<open>b\<close> are the same key. So it
  is for strings and for integers; not for a key type that holds \<^verbatim>\<open>nan\<close>, or both \<^verbatim>\<open>1\<close>
  and \<^verbatim>\<open>1.0\<close>.
\<close>

definition eq_is_identity :: "'k runtime \<Rightarrow> bool" where
  "eq_is_identity H = (key_eq H = (\<lambda>a b. a = b))"

definition slot_key :: "('k, 'v) slot \<Rightarrow> 'k option" where
  "slot_key x = map_option fst x"

definition probe :: "'k runtime \<Rightarrow> nat \<Rightarrow> 'k \<Rightarrow> nat \<Rightarrow> nat" where
  "probe H n key i = nat (probe_position (hash_key H key) (hash_str H key) (int n) (int i))"

definition keys_of :: "('k, 'v) slot list \<Rightarrow> 'k set" where
  "keys_of tbl = {k. Some k \<in> slot_key ` set tbl}"

definition full_for :: "'k runtime \<Rightarrow> nat \<Rightarrow> ('k, 'v) slot list \<Rightarrow> 'k \<Rightarrow> bool" where
  "full_for H m tbl k = (\<forall>i<m. tbl ! probe H (length tbl) k i \<noteq> None)"

definition chain :: "'k runtime \<Rightarrow> nat \<Rightarrow> ('k, 'v) slot list \<Rightarrow> bool" where
  "chain H m tbl =
     (\<forall>p<length tbl. \<forall>k. slot_key (tbl ! p) = Some k \<longrightarrow>
        (\<exists>i<m. probe H (length tbl) k i = p
           \<and> (\<forall>j<i. slot_key (tbl ! probe H (length tbl) k j) \<notin> {None, Some k})))"

definition first_at :: "'k runtime \<Rightarrow> ('k, 'v) slot list \<Rightarrow> 'k \<Rightarrow> nat \<Rightarrow> bool" where
  "first_at H tbl k i =
     (i < length tbl \<and> (\<forall>j<i. slot_key (tbl ! probe H (length tbl) k j) \<notin> {None, Some k}))"

definition sub_inv :: "'k runtime \<Rightarrow> nat \<Rightarrow> ('k, 'v) subarray \<Rightarrow> bool" where
  "sub_inv H m s =
     (eq_is_identity H \<and> 2 \<le> sub_size s \<and> length (sub_table s) = sub_size s
      \<and> chain H m (sub_table s))"

definition good_sub :: "'k runtime \<Rightarrow> ('k, 'v) subarray \<Rightarrow> bool" where
  "good_sub H s = (eq_is_identity H \<and> 2 \<le> sub_size s \<and> length (sub_table s) = sub_size s)"

definition cand1 :: "'k runtime \<Rightarrow> nat \<Rightarrow> 'k \<Rightarrow> nat" where
  "cand1 H n k = nat (hash_key H k mod int n)"

definition cand2 :: "'k runtime \<Rightarrow> nat \<Rightarrow> 'k \<Rightarrow> nat" where
  "cand2 H n k = nat ((hash_key H k mod int n + 1 + hash_str H k mod (int n - 1)) mod int n)"

definition good_last :: "'k runtime \<Rightarrow> ('k, 'v) lastsubarray \<Rightarrow> bool" where
  "good_last H la =
     (eq_is_identity H \<and> 2 \<le> b_size la \<and> length (part_b la) = b_size la
      \<and> 2 \<le> length (part_c la)
      \<and> (\<forall>bucket\<in>set (part_c la). length bucket = bucket_size la))"

definition last_inv :: "'k runtime \<Rightarrow> ('k, 'v) lastsubarray \<Rightarrow> bool" where
  "last_inv H la = (good_last H la \<and> chain H (log_log (last_size la)) (part_b la))"

definition last_keys :: "('k, 'v) lastsubarray \<Rightarrow> 'k set" where
  "last_keys la = keys_of (part_b la) \<union> (\<Union>bucket\<in>set (part_c la). keys_of bucket)"


definition tier_keys :: "('k, 'v) subarray list \<Rightarrow> 'k set" where
  "tier_keys ss = (\<Union>s\<in>set ss. keys_of (sub_table s))"

fun tiers_inv :: "'k runtime \<Rightarrow> nat \<Rightarrow> ('k, 'v) subarray list \<Rightarrow> 'k set \<Rightarrow> bool" where
  "tiers_inv H m [] L = True"
| "tiers_inv H m (s # ss) L =
     (sub_inv H m s
      \<and> (\<forall>k\<in>tier_keys ss \<union> L. full_for H m (sub_table s) k \<and> k \<notin> keys_of (sub_table s))
      \<and> tiers_inv H m ss L)"

definition last_keys_opt :: "('k, 'v) lastsubarray option \<Rightarrow> 'k set" where
  "last_keys_opt l = (case l of None \<Rightarrow> {} | Some la \<Rightarrow> last_keys la)"

definition tbl_inv :: "'k runtime \<Rightarrow> ('k, 'v) table \<Rightarrow> bool" where
  "tbl_inv H t =
     (\<exists>mp. eq_is_identity H
        \<and> (subarrays t = [] \<or> int_log2_inv H (tbl_delta t) = Inr mp)
        \<and> (\<forall>la. last_array t = Some la \<longrightarrow> last_inv H la)
        \<and> tiers_inv H (nat mp) (subarrays t) (last_keys_opt (last_array t)))"


definition stuck :: "'k runtime \<Rightarrow> ('k, 'v) table \<Rightarrow> bool" where
  "stuck H t = (tbl_count t = 0 \<and> (\<forall>k v. \<exists>e. tbl_insert H t k v = Inl e))"

text \<open>The keys that some slot of some tier holds.\<close>

definition table_keys :: "('k, 'v) table \<Rightarrow> 'k set" where
  "table_keys t = tier_keys (subarrays t) \<union> last_keys_opt (last_array t)"

text \<open>
  The shape of a table on which no hash function takes a modulus by zero and no index is
  out of range. It says nothing of the keys and of their equality.
\<close>

definition shape_sub :: "('k, 'v) subarray \<Rightarrow> bool" where
  "shape_sub s = (2 \<le> sub_size s \<and> length (sub_table s) = sub_size s)"

definition shape_last :: "('k, 'v) lastsubarray \<Rightarrow> bool" where
  "shape_last la =
     (2 \<le> b_size la \<and> length (part_b la) = b_size la \<and> 2 \<le> length (part_c la))"

definition shape_tbl :: "'k runtime \<Rightarrow> ('k, 'v) table \<Rightarrow> bool" where
  "shape_tbl H t =
     ((subarrays t = [] \<or> (\<exists>mp. int_log2_inv H (tbl_delta t) = Inr mp))
      \<and> (\<forall>s\<in>set (subarrays t). shape_sub s)
      \<and> (\<forall>la. last_array t = Some la \<longrightarrow> shape_last la))"

section \<open>Basic facts\<close>

lemma key_eq_identity [simp]: "eq_is_identity H \<Longrightarrow> key_eq H a b \<longleftrightarrow> a = b"
  by (simp add: eq_is_identity_def)

lemma ebind_Inr [simp]: "ebind (Inr x) f = f x"
  by (simp add: ebind_def)

lemma ebind_Inl [simp]: "ebind (Inl e) f = Inl e"
  by (simp add: ebind_def)

lemma py_mod_nonzero [simp]: "b \<noteq> 0 \<Longrightarrow> py_mod a b = Inr (a mod b)"
  by (simp add: py_mod_def)

lemma py_mod_zero [simp]: "py_mod a 0 = Inl ZeroDivisionError"
  by (simp add: py_mod_def)

lemma slot_key_simps [simp]:
  "slot_key None = None" "slot_key (Some (k, v)) = Some k"
  by (simp_all add: slot_key_def)

lemma slot_key_eq_None [simp]: "slot_key x = None \<longleftrightarrow> x = None"
  by (simp add: slot_key_def)

lemma slot_key_eq_Some: "slot_key x = Some k \<longleftrightarrow> (\<exists>v. x = Some (k, v))"
  by (cases x) (auto simp: slot_key_def)

lemma getitem_good [simp]: "i < length xs \<Longrightarrow> getitem xs i = Inr (xs ! i)"
  by (simp add: getitem_def)

lemma probe_less [simp]: "0 < n \<Longrightarrow> probe H n k i < n"
  by (simp add: probe_def probe_position_def Let_def nat_less_iff)

lemma probe_period: "probe H n k (i + n) = probe H n k i"
proof -
  have "(a + (int i + int n) * b) mod int n = (a + int i * b) mod int n" for a b :: int
  proof -
    have "a + (int i + int n) * b = (a + int i * b) + b * int n" by (simp add: algebra_simps)
    then show ?thesis by (metis mod_mult_self1)
  qed
  then show ?thesis by (simp add: probe_def probe_position_def Let_def)
qed

lemma sub_hash_good [simp]:
  "2 \<le> sub_size s \<Longrightarrow> sub_hash H s k i = Inr (probe H (sub_size s) k i)"
  by (simp add: sub_hash_def probe_def probe_position_def Let_def)

lemma keys_of_iff: "k \<in> keys_of tbl \<longleftrightarrow> (\<exists>p<length tbl. slot_key (tbl ! p) = Some k)"
proof
  assume "k \<in> keys_of tbl"
  then obtain x where "x \<in> set tbl" "slot_key x = Some k"
    by (auto simp: keys_of_def)
  then show "\<exists>p<length tbl. slot_key (tbl ! p) = Some k"
    by (auto simp: in_set_conv_nth)
next
  assume "\<exists>p<length tbl. slot_key (tbl ! p) = Some k"
  then obtain p where "p < length tbl" "slot_key (tbl ! p) = Some k" by blast
  then have "tbl ! p \<in> set tbl" "Some k = slot_key (tbl ! p)" by simp_all
  then show "k \<in> keys_of tbl" unfolding keys_of_def by blast
qed

text \<open>The first position of a key on its own probe sequence.\<close>

lemma chain_first:
  assumes "chain H m tbl" "k \<in> keys_of tbl"
  shows "\<exists>i. i < m \<and> i < length tbl \<and> slot_key (tbl ! probe H (length tbl) k i) = Some k
           \<and> (\<forall>j<i. slot_key (tbl ! probe H (length tbl) k j) \<notin> {None, Some k})"
proof -
  from assms(2) obtain p where p: "p < length tbl" "slot_key (tbl ! p) = Some k"
    by (auto simp: keys_of_iff)
  with assms(1) obtain i where i: "i < m" "probe H (length tbl) k i = p"
      "\<forall>j<i. slot_key (tbl ! probe H (length tbl) k j) \<notin> {None, Some k}"
    unfolding chain_def by blast
  have "i < length tbl"
  proof (rule ccontr)
    assume "\<not> i < length tbl"
    then have "i - length tbl < i" "i = (i - length tbl) + length tbl" using p(1) by simp_all
    then have "probe H (length tbl) k (i - length tbl) = p"
      using probe_period [of H "length tbl" k "i - length tbl"] i(2) by simp
    with i(3) \<open>i - length tbl < i\<close> p(2) show False by auto
  qed
  with i p show ?thesis by blast
qed

lemma other_key_iff: "slot_key x \<notin> {None, Some k} \<longleftrightarrow> (\<exists>k' v. x = Some (k', v) \<and> k' \<noteq> k)"
  by (cases x) (auto simp: slot_key_def)

lemma not_in_keys:
  "k \<notin> keys_of tbl \<Longrightarrow> p < length tbl \<Longrightarrow> tbl ! p = Some (k', v) \<Longrightarrow> k' \<noteq> k"
  by (auto simp: keys_of_iff)

lemma upt_split: "i < n \<Longrightarrow> [0..<n] = [0..<i] @ i # [Suc i..<n]"
  by (metis le_add1 less_imp_add_positive plus_nat.add_0 upt_add_eq_append upt_conv_Cons)

lemma probe_not_key:
  assumes "k \<notin> keys_of tbl" "0 < length tbl"
  shows "tbl ! probe H (length tbl) k i \<noteq> Some (k, v)"
  using assms not_in_keys [of k tbl "probe H (length tbl) k i" k v] by auto

subsection \<open>The scans of a sub-array\<close>

lemma sub_search_scan_hit:
  assumes "good_sub H s"
    and "\<forall>j\<in>set js. slot_key (sub_table s ! probe H (sub_size s) k j) \<notin> {None, Some k}"
    and "sub_table s ! probe H (sub_size s) k i = Some (k, v)"
  shows "sub_search_scan H s k (js @ i # rest) = Inr v"
  using assms by (induction js) (auto simp: good_sub_def other_key_iff)

lemma sub_search_scan_miss:
  assumes "good_sub H s" "k \<notin> keys_of (sub_table s)"
  shows "sub_search_scan H s k is = Inr None"
proof (induction "is")
  case Nil
  show ?case by simp
next
  case (Cons i "is")
  have "sub_table s ! probe H (sub_size s) k i \<noteq> Some (k, v)" for v
    using assms probe_not_key [of k "sub_table s" H i v] by (simp add: good_sub_def)
  with assms(1) Cons show ?case
    by (auto simp: good_sub_def split: option.splits)
qed

lemma slot_in_keys:
  "p < length tbl \<Longrightarrow> tbl ! p = Some (k', v) \<Longrightarrow> k' \<in> keys_of tbl"
  by (auto simp: keys_of_iff slot_key_eq_Some)

lemma sub_search_scan_none:
  assumes "shape_sub s" "\<forall>k'\<in>keys_of (sub_table s). \<not> key_eq H k' k"
  shows "sub_search_scan H s k is = Inr None"
proof (induction "is")
  case Nil
  show ?case by simp
next
  case (Cons i "is")
  have sz: "2 \<le> sub_size s" and len: "length (sub_table s) = sub_size s"
    using assms(1) by (simp_all add: shape_sub_def)
  have p: "probe H (sub_size s) k i < length (sub_table s)" using sz len by simp
  have "\<not> key_eq H k' k" if "sub_table s ! probe H (sub_size s) k i = Some (k', v)" for k' v
    using slot_in_keys [OF p that] assms(2) by blast
  with sz p Cons show ?case by (auto split: option.splits)
qed

lemma sub_search_none:
  assumes "shape_sub s" "\<forall>k'\<in>keys_of (sub_table s). \<not> key_eq H k' k"
  shows "sub_search H s k = Inr None"
  unfolding sub_search_def using assms by (rule sub_search_scan_none)





subsection \<open>Writing one slot\<close>

lemma chain_first_at:
  assumes "chain H m tbl" "k \<in> keys_of tbl"
  shows "\<exists>i<m. first_at H tbl k i \<and> slot_key (tbl ! probe H (length tbl) k i) = Some k"
  using chain_first [OF assms] unfolding first_at_def by blast









subsection \<open>Search and insert of a sub-array\<close>

lemma sub_inv_good: "sub_inv H m s \<Longrightarrow> good_sub H s"
  by (simp add: sub_inv_def good_sub_def)

lemma sub_search_at:
  assumes "good_sub H s" "first_at H (sub_table s) k i"
    and "sub_table s ! probe H (sub_size s) k i = Some (k, v)"
  shows "sub_search H s k = Inr v"
proof -
  have len: "length (sub_table s) = sub_size s" using assms(1) by (simp add: good_sub_def)
  have i: "i < sub_size s" using assms(2) len by (simp add: first_at_def)
  have "\<forall>j\<in>set [0..<i]. slot_key (sub_table s ! probe H (sub_size s) k j) \<notin> {None, Some k}"
    using assms(2) len by (simp add: first_at_def)
  from sub_search_scan_hit [OF assms(1) this assms(3)] show ?thesis
    unfolding sub_search_def upt_split [OF i] .
qed

lemma sub_search_absent:
  assumes "good_sub H s" "k \<notin> keys_of (sub_table s)"
  shows "sub_search H s k = Inr None"
  unfolding sub_search_def using assms by (rule sub_search_scan_miss)






lemma hash_b_good [simp]:
  "2 \<le> b_size la \<Longrightarrow> hash_b H la k i = Inr (probe H (b_size la) k i)"
  by (simp add: hash_b_def probe_def probe_position_def Let_def)

lemma cand_facts:
  assumes "2 \<le> n"
  shows "cand1 H n k < n" "cand2 H n k < n" "cand1 H n k \<noteq> cand2 H n k"
proof -
  define h1 where "h1 = hash_key H k mod int n"
  define d where "d = 1 + hash_str H k mod (int n - 1)"
  define h2 where "h2 = (h1 + d) mod int n"
  have n: "2 \<le> int n" using assms by simp
  have h1: "0 \<le> h1" "h1 < int n" using n by (simp_all add: h1_def)
  have "0 \<le> hash_str H k mod (int n - 1)" "hash_str H k mod (int n - 1) < int n - 1"
    using n by simp_all
  then have d: "0 < d" "d < int n" by (simp_all add: d_def)
  have h2: "0 \<le> h2" "h2 < int n" using n by (simp_all add: h2_def)
  have ne: "h2 \<noteq> h1"
  proof
    assume "h2 = h1"
    then have "(h1 + d) mod int n = h1 mod int n" using h1 by (simp add: h2_def)
    then have "int n dvd d" by (metis add_diff_cancel_left' mod_eq_dvd_iff)
    then show False using d by (simp add: zdvd_not_zless)
  qed
  have c1: "cand1 H n k = nat h1" by (simp add: cand1_def h1_def)
  have c2: "cand2 H n k = nat h2" by (simp add: cand2_def h2_def h1_def d_def add.assoc)
  show "cand1 H n k < n" using h1 by (simp add: c1)
  show "cand2 H n k < n" using h2 by (simp add: c2)
  show "cand1 H n k \<noteq> cand2 H n k" using ne h1 h2 by (simp add: c1 c2)
qed

lemma hash_c_good:
  assumes "2 \<le> length (part_c la)"
  shows "hash_c H la k = Inr (cand1 H (length (part_c la)) k, cand2 H (length (part_c la)) k)"
proof -
  have "int (length (part_c la)) \<noteq> 0" "int (length (part_c la)) - 1 \<noteq> 0" using assms by auto
  then show ?thesis by (simp add: hash_c_def Let_def cand1_def cand2_def)
qed

subsection \<open>The scans of part B\<close>







subsection \<open>Buckets\<close>

lemma keys_of_Cons: "keys_of (x # xs) = (case slot_key x of None \<Rightarrow> {} | Some k \<Rightarrow> {k}) \<union> keys_of xs"
  by (auto simp: keys_of_def split: option.splits)

lemma keys_of_Nil [simp]: "keys_of [] = {}"
  by (simp add: keys_of_def)







lemma bucket_place_None:
  assumes "bucket_place bucket is = Inr None" "j \<in> set is"
  shows "j < length bucket \<and> bucket ! j \<noteq> None"
  using assms
proof (induction "is")
  case Nil
  then show ?case by simp
next
  case (Cons j' js)
  then show ?case
    by (cases "j' < length bucket") (auto simp: getitem_def split: option.splits)
qed


lemma bucket_search_none:
  assumes "\<forall>k'\<in>keys_of bucket. \<not> key_eq H k' k"
  shows "bucket_search H k bucket = None"
  using assms by (induction bucket) (auto simp: keys_of_Cons split: option.splits)

subsection \<open>Search of the last sub-array\<close>

lemma last_search_b_none:
  assumes "2 \<le> b_size la" "length (part_b la) = b_size la"
    and "\<forall>k'\<in>keys_of (part_b la). \<not> key_eq H k' k"
  shows "last_search_b H la k is = Inr None"
proof (induction "is")
  case Nil
  show ?case by simp
next
  case (Cons i "is")
  have p: "probe H (b_size la) k i < length (part_b la)" using assms(1,2) by simp
  have "\<not> key_eq H k' k" if "part_b la ! probe H (b_size la) k i = Some (k', v)" for k' v
    using slot_in_keys [OF p that] assms(3) by blast
  with assms(1) p Cons show ?case by (auto split: option.splits)
qed

lemma last_search_none:
  assumes "shape_last la" "\<forall>k'\<in>last_keys la. \<not> key_eq H k' k"
  shows "last_search H la k = Inr None"
proof -
  let ?c = "part_c la"
  have sz: "2 \<le> b_size la" and len: "length (part_b la) = b_size la" and n: "2 \<le> length ?c"
    using assms(1) by (simp_all add: shape_last_def)
  note cf = cand_facts [OF n, of H k]
  have "\<forall>k'\<in>keys_of (part_b la). \<not> key_eq H k' k" using assms(2) by (simp add: last_keys_def)
  with sz len have b: "last_search_b H la k [0..<log_log (last_size la)] = Inr None"
    by (rule last_search_b_none)
  have "?c ! cand1 H (length ?c) k \<in> set ?c" "?c ! cand2 H (length ?c) k \<in> set ?c"
    using cf by simp_all
  then have "\<forall>k'\<in>keys_of (?c ! cand1 H (length ?c) k). \<not> key_eq H k' k"
    "\<forall>k'\<in>keys_of (?c ! cand2 H (length ?c) k). \<not> key_eq H k' k"
    using assms(2) by (auto simp: last_keys_def)
  then have "bucket_search H k (?c ! cand1 H (length ?c) k) = None"
    "bucket_search H k (?c ! cand2 H (length ?c) k) = None"
    by (simp_all add: bucket_search_none)
  then show ?thesis using b cf by (simp add: last_search_def hash_c_good [OF n])
qed






subsection \<open>Writing one slot of the last sub-array\<close>





subsection \<open>Insert into the last sub-array\<close>




lemma tier_keys_simps [simp]:
  "tier_keys [] = {}" "tier_keys (s # ss) = keys_of (sub_table s) \<union> tier_keys ss"
  by (simp_all add: tier_keys_def)

lemma sub_search_total:
  assumes "sub_inv H m s"
  shows "\<exists>r. sub_search H s k = Inr r \<and> (r \<noteq> None \<longrightarrow> k \<in> keys_of (sub_table s))"
proof (cases "k \<in> keys_of (sub_table s)")
  case True
  have good: "good_sub H s" using assms by (rule sub_inv_good)
  have len: "length (sub_table s) = sub_size s" and ch: "chain H m (sub_table s)"
    using assms by (simp_all add: sub_inv_def)
  from chain_first_at [OF ch True] obtain i where i: "first_at H (sub_table s) k i"
    "slot_key (sub_table s ! probe H (length (sub_table s)) k i) = Some k" by blast
  then obtain v where "sub_table s ! probe H (sub_size s) k i = Some (k, v)"
    using len by (auto simp: slot_key_eq_Some)
  from sub_search_at [OF good i(1) this] show ?thesis using True by simp
next
  case False
  then show ?thesis using sub_search_absent [OF sub_inv_good [OF assms]] by simp
qed


lemma search_subarrays_total:
  assumes "tiers_inv H m ss L"
  shows "\<exists>r. search_subarrays H ss k = Inr r"
  using assms
proof (induction ss)
  case Nil
  show ?case by simp
next
  case (Cons s ss)
  from sub_search_total [of H m s k] Cons.prems obtain r where "sub_search H s k = Inr r" by auto
  then show ?case using Cons by (cases "r = None") auto
qed




subsection \<open>The two loops over the sub-arrays\<close>





subsection \<open>Insert and search of the table\<close>






lemma record_last_same: "last_array t = Some la \<Longrightarrow> t\<lparr>last_array := Some la\<rparr> = t"
  by simp



subsection \<open>The table that the constructor returns\<close>

lemma keys_of_replicate [simp]: "keys_of (replicate n None) = {}"
  by (auto simp: keys_of_def)

lemma chain_replicate: "chain H m (replicate n None)"
  by (simp add: chain_def)

lemma sub_inv_SubArray: "eq_is_identity H \<Longrightarrow> 2 \<le> sz \<Longrightarrow> sub_inv H m (SubArray sz)"
  by (simp add: sub_inv_def SubArray_def chain_replicate)

lemma sub_search_SubArray: "2 \<le> sz \<Longrightarrow> sub_search H (SubArray sz) k = Inr None"
  by (rule sub_search_none) (simp_all add: shape_sub_def SubArray_def)

lemma sub_search_SubArray_1: "sub_search H (SubArray (Suc 0)) k = Inl ZeroDivisionError"
  by (simp add: sub_search_def SubArray_def sub_hash_def)

lemma insert_existing_empty_mp:
  assumes "int_log2_inv H delta = Inr mp" "\<forall>s\<in>set ss. \<exists>sz\<ge>1. s = SubArray sz"
  shows "insert_existing H delta ss k v =
           (if \<forall>s\<in>set ss. 2 \<le> sub_size s then Inr None else Inl ZeroDivisionError)"
  using assms(2)
proof (induction ss)
  case Nil
  show ?case by simp
next
  case (Cons s ss)
  then obtain sz where sz: "1 \<le> sz" "s = SubArray sz" by auto
  have size: "sub_size s = sz" using sz(2) by (simp add: SubArray_def)
  show ?case
  proof (cases "2 \<le> sz")
    case True
    then show ?thesis using Cons assms(1) sz(2) size by (simp add: sub_search_SubArray)
  next
    case False
    then have "sz = Suc 0" using sz(1) by simp
    then show ?thesis using assms(1) sz(2) size by (simp add: sub_search_SubArray_1)
  qed
qed

lemma insert_existing_empty:
  assumes "ss = [] \<or> int_log2_inv H delta = Inr mp" "\<forall>s\<in>set ss. \<exists>sz\<ge>1. s = SubArray sz"
  shows "insert_existing H delta ss k v =
           (if \<forall>s\<in>set ss. 2 \<le> sub_size s then Inr None else Inl ZeroDivisionError)"
proof (cases "ss = []")
  case True
  then show ?thesis by simp
next
  case False
  then have "int_log2_inv H delta = Inr mp" using assms(1) by simp
  then show ?thesis using assms(2) by (rule insert_existing_empty_mp)
qed

lemma insert_existing_raises:
  assumes "int_log2_inv H delta = Inl e" "ss \<noteq> []"
  shows "insert_existing H delta ss k v = Inl e"
  using assms by (cases ss) simp_all

lemma tiers_inv_empty:
  assumes "\<forall>s\<in>set ss. \<exists>sz\<ge>2. s = SubArray sz" "eq_is_identity H"
  shows "tiers_inv H m ss {} \<and> tier_keys ss = {}"
  using assms(1)
proof (induction ss)
  case Nil
  show ?case by simp
next
  case (Cons s ss)
  then obtain sz where sz: "2 \<le> sz" "s = SubArray sz" by auto
  have "sub_inv H m s" using sz assms(2) by (simp add: sub_inv_SubArray)
  moreover have "keys_of (sub_table s) = {}" using sz(2) by (simp add: SubArray_def)
  ultimately show ?case using Cons by simp
qed

lemma make_subarrays_shape:
  "\<forall>s\<in>set (make_subarrays c is). \<exists>sz\<ge>1. s = (SubArray sz :: ('k, 'v) subarray)"
proof (induction "is")
  case Nil
  show ?case by simp
next
  case (Cons i "is")
  show ?case
  proof (cases "c div 2 ^ i < 1")
    case True
    then show ?thesis by simp
  next
    case False
    then have "1 \<le> nat (c div 2 ^ i)" by simp
    then show ?thesis using Cons False by (auto simp: Let_def)
  qed
qed

lemma ilog2_pos: "2 \<le> n \<Longrightarrow> 1 \<le> ilog2 n"
  by (subst ilog2.simps) simp

lemma log_log_pos: "1 \<le> sz \<Longrightarrow> 1 \<le> log_log sz"
  unfolding log_log_def by (intro ilog2_pos) (use ilog2_pos [of "sz + 1"] in simp)

lemma LastSubArray_fields:
  assumes "LastSubArray sz = Inr la"
  shows "last_size la = sz" "b_size la = sz div 2" "bucket_size la = 2 * log_log sz"
    "part_b la = replicate (sz div 2) None"
    "part_c la = replicate ((sz - sz div 2 + 2 * log_log sz - 1) div (2 * log_log sz))
                   (replicate (2 * log_log sz) None)"
    "last_count la = 0"
  using assms by (auto simp: LastSubArray_def Let_def split: if_splits)

lemma LastSubArray_total: "1 \<le> sz \<Longrightarrow> \<exists>la. LastSubArray sz = Inr la"
  using log_log_pos [of sz] by (simp add: LastSubArray_def Let_def)

lemma LastSubArray_empty:
  assumes "LastSubArray sz = Inr la"
  shows "last_keys la = {}" "\<forall>bucket\<in>set (part_c la). length bucket = bucket_size la"
proof -
  note f = LastSubArray_fields [OF assms]
  show "last_keys la = {}" by (auto simp: last_keys_def f(4,5))
  show "\<forall>bucket\<in>set (part_c la). length bucket = bucket_size la" by (simp add: f(3,5))
qed

lemma last_inv_LastSubArray:
  assumes "LastSubArray sz = Inr la" "shape_last la" "eq_is_identity H"
  shows "last_inv H la"
proof -
  note f = LastSubArray_fields [OF assms(1)]
  have "good_last H la"
    using assms(2,3) LastSubArray_empty(2) [OF assms(1)]
    by (simp add: good_last_def shape_last_def)
  then show "last_inv H la" by (simp add: last_inv_def f(4) chain_replicate)
qed

lemma last_search_degenerate:
  assumes "LastSubArray sz = Inr la" "1 \<le> sz" "\<not> shape_last la"
  shows "last_search H la k = Inl ZeroDivisionError"
proof -
  note f = LastSubArray_fields [OF assms(1)]
  from log_log_pos [OF assms(2)] have "0 < log_log sz" by simp
  then have up: "[0..<log_log (last_size la)] = 0 # [Suc 0..<log_log sz]"
    by (simp add: f(1) upt_conv_Cons)
  consider (b0) "b_size la = 0" | (b1) "b_size la = 1" | (b2) "2 \<le> b_size la" by linarith
  then show ?thesis
  proof cases
    case b0
    then show ?thesis by (simp add: last_search_def up hash_b_def)
  next
    case b1
    then show ?thesis by (simp add: last_search_def up hash_b_def)
  next
    case b2
    then have p: "probe H (b_size la) k 0 < sz div 2" using f(2) by simp
    have scan: "last_search_b H la k [0..<log_log (last_size la)] = Inr None"
      using b2 p by (simp add: up f(4))
    have "length (part_b la) = b_size la" by (simp add: f(2,4))
    then have "\<not> 2 \<le> length (part_c la)" using assms(3) b2 by (simp add: shape_last_def)
    then consider "length (part_c la) = 0" | "length (part_c la) = 1" by linarith
    then have "hash_c H la k = Inl ZeroDivisionError"
      by cases (simp_all add: hash_c_def)
    then show ?thesis using scan by (simp add: last_search_def)
  qed
qed

text \<open>
  A table with no entry, as the constructor builds it. Either it has the shape on which
  nothing raises, or every \<^verbatim>\<open>insert\<close> raises: a sub-array of size 1, a part B of size
  0 or 1, or a single bucket make a hash function take a modulus by zero.
\<close>

lemma fresh_table_cases:
  assumes mp: "subarrays t = [] \<or> int_log2_inv H (tbl_delta t) = Inr mp"
    and subs: "\<forall>s\<in>set (subarrays t). \<exists>sz\<ge>1. s = SubArray sz"
    and count: "tbl_count t = 0"
    and last: "\<forall>la. last_array t = Some la \<longrightarrow> (\<exists>sz\<ge>1. LastSubArray sz = Inr la)"
  shows "(shape_tbl H t \<and> table_keys t = {} \<and> (eq_is_identity H \<longrightarrow> tbl_inv H t)) \<or> stuck H t"
proof (cases "\<forall>s\<in>set (subarrays t). 2 \<le> sub_size s")
  case False
  then have "insert_existing H (tbl_delta t) (subarrays t) k v = Inl ZeroDivisionError" for k v
    using insert_existing_empty [OF mp subs] by simp
  then have "stuck H t" using count by (simp add: stuck_def tbl_insert_def)
  then show ?thesis ..
next
  case True
  have ex: "insert_existing H (tbl_delta t) (subarrays t) k v = Inr None" for k v
    using insert_existing_empty [OF mp subs] True by simp
  have two: "\<forall>s\<in>set (subarrays t). \<exists>sz\<ge>2. s = SubArray sz"
  proof
    fix s assume s: "s \<in> set (subarrays t)"
    with subs obtain sz where "s = SubArray sz" by blast
    moreover from this True s have "2 \<le> sz" by (auto simp: SubArray_def)
    ultimately show "\<exists>sz\<ge>2. s = SubArray sz" by blast
  qed
  then have shapes: "\<forall>s\<in>set (subarrays t). shape_sub s"
    by (auto simp: shape_sub_def SubArray_def)
  have nokeys: "tier_keys (subarrays t) = {}"
    using two by (auto simp: tier_keys_def SubArray_def)
  have tiers: "tiers_inv H (nat mp) (subarrays t) {}" if "eq_is_identity H"
    using tiers_inv_empty [OF two that] by simp
  have mpx: "subarrays t = [] \<or> (\<exists>mp. int_log2_inv H (tbl_delta t) = Inr mp)"
    using mp by blast
  show ?thesis
  proof (cases "last_array t")
    case None
    have "shape_tbl H t" using mpx shapes None by (simp add: shape_tbl_def)
    moreover have "table_keys t = {}"
      using nokeys None by (simp add: table_keys_def last_keys_opt_def)
    moreover have "tbl_inv H t" if "eq_is_identity H"
      unfolding tbl_inv_def using that mp tiers None
      by (intro exI [of _ mp]) (simp add: last_keys_opt_def)
    ultimately show ?thesis by blast
  next
    case (Some la)
    with last obtain sz where sz: "1 \<le> sz" "LastSubArray sz = Inr la" by blast
    note e = LastSubArray_empty [OF sz(2)]
    show ?thesis
    proof (cases "shape_last la")
      case True
      have "shape_tbl H t" using mpx shapes Some True by (simp add: shape_tbl_def)
      moreover have "table_keys t = {}"
        using nokeys Some e(1) by (simp add: table_keys_def last_keys_opt_def)
      moreover have "tbl_inv H t" if "eq_is_identity H"
        unfolding tbl_inv_def
        using that mp tiers Some e(1) last_inv_LastSubArray [OF sz(2) True that]
        by (intro exI [of _ mp]) (simp add: last_keys_opt_def)
      ultimately show ?thesis by blast
    next
      case False
      from last_search_degenerate [OF sz(2,1) False]
      have "tbl_insert H t k v = Inl ZeroDivisionError" for k v
        using ex Some by (simp add: tbl_insert_def)
      then have "stuck H t" using count by (simp add: stuck_def)
      then show ?thesis ..
    qed
  qed
qed

lemma init_fields:
  assumes "init H n delta = Inr t"
  shows "tbl_size t = n" "tbl_delta t = delta" "tbl_count t = 0"
    "\<exists>a. int_log2_inv_3 H delta = Inr a \<and> subarrays t = make_subarrays (n div 2) [0..<nat a]"
    "if 0 < n - sum_list (map (\<lambda>arr. int (sub_size arr)) (subarrays t))
     then \<exists>la. LastSubArray (nat (n - sum_list (map (\<lambda>arr. int (sub_size arr)) (subarrays t))))
                  = Inr la \<and> last_array t = Some la
     else last_array t = None"
proof -
  from assms obtain a where a: "int_log2_inv_3 H delta = Inr a"
    by (cases "int_log2_inv_3 H delta") (simp_all add: init_def)
  let ?subs = "make_subarrays (n div 2) [0..<nat a] :: ('a, 'b) subarray list"
  let ?l = "n - sum_list (map (\<lambda>arr. int (sub_size arr)) ?subs)"
  have eq: "init H n delta =
      (if ?l > 0
       then ebind (LastSubArray (nat ?l)) (\<lambda>la.
              Inr \<lparr>tbl_size = n, tbl_delta = delta, tbl_count = 0, tbl_alpha = a,
                   subarrays = ?subs, last_array = Some la\<rparr>)
       else Inr \<lparr>tbl_size = n, tbl_delta = delta, tbl_count = 0, tbl_alpha = a,
                 subarrays = ?subs, last_array = None\<rparr>)"
    by (simp add: init_def a Let_def)
  show "tbl_size t = n" "tbl_delta t = delta" "tbl_count t = 0"
    using assms unfolding eq by (cases "LastSubArray (nat ?l) :: error + ('a, 'b) lastsubarray";
      auto split: if_splits)+
  have s: "subarrays t = ?subs"
    using assms unfolding eq by (cases "LastSubArray (nat ?l) :: error + ('a, 'b) lastsubarray";
      auto split: if_splits)
  then show "\<exists>a. int_log2_inv_3 H delta = Inr a \<and> subarrays t = make_subarrays (n div 2) [0..<nat a]"
    using a by blast
  show "if 0 < n - sum_list (map (\<lambda>arr. int (sub_size arr)) (subarrays t))
     then \<exists>la. LastSubArray (nat (n - sum_list (map (\<lambda>arr. int (sub_size arr)) (subarrays t))))
                  = Inr la \<and> last_array t = Some la
     else last_array t = None"
    unfolding s using assms unfolding eq
    by (cases "LastSubArray (nat ?l) :: error + ('a, 'b) lastsubarray"; auto split: if_splits)
qed

text \<open>
  The table that the constructor returns. When \<^verbatim>\<open>int(math.log2(1/delta))\<close> raises and
  there is a sub-array, every \<^verbatim>\<open>insert\<close> raises too.
\<close>

lemma init_shape_or_stuck:
  assumes "init H n delta = Inr t"
  shows "(shape_tbl H t \<and> table_keys t = {} \<and> (eq_is_identity H \<longrightarrow> tbl_inv H t)) \<or> stuck H t"
proof -
  note f = init_fields [OF assms]
  from f(4) obtain a where a: "int_log2_inv_3 H delta = Inr a"
    "subarrays t = make_subarrays (n div 2) [0..<nat a]" by blast
  have subs: "\<forall>s\<in>set (subarrays t). \<exists>sz\<ge>1. s = SubArray sz"
    unfolding a(2) by (rule make_subarrays_shape)
  have last: "\<forall>la. last_array t = Some la \<longrightarrow> (\<exists>sz\<ge>1. LastSubArray sz = Inr la)"
  proof (intro allI impI)
    fix la assume la: "last_array t = Some la"
    let ?l = "n - sum_list (map (\<lambda>arr. int (sub_size arr)) (subarrays t))"
    have pos: "0 < ?l" using f(5) la by (auto split: if_splits)
    then have "LastSubArray (nat ?l) = Inr la" using f(5) la by auto
    moreover have "1 \<le> nat ?l" using pos by simp
    ultimately show "\<exists>sz\<ge>1. LastSubArray sz = Inr la" by blast
  qed
  show ?thesis
  proof (cases "int_log2_inv H (tbl_delta t)")
    case (Inr mp)
    then have "subarrays t = [] \<or> int_log2_inv H (tbl_delta t) = Inr mp" by simp
    then show ?thesis using subs f(3) last by (rule fresh_table_cases)
  next
    case (Inl e)
    show ?thesis
    proof (cases "subarrays t = []")
      case True
      then have "subarrays t = [] \<or> int_log2_inv H (tbl_delta t) = Inr 0" by simp
      then show ?thesis using subs f(3) last by (rule fresh_table_cases)
    next
      case False
      with Inl have "insert_existing H (tbl_delta t) (subarrays t) k v = Inl e" for k v
        by (rule insert_existing_raises)
      then have "stuck H t" using f(3) by (simp add: stuck_def tbl_insert_def)
      then show ?thesis ..
    qed
  qed
qed


lemma ebind_eq_Inr: "ebind m f = Inr y \<longleftrightarrow> (\<exists>x. m = Inr x \<and> f x = Inr y)"
  by (cases m) simp_all

subsection \<open>What an insert leaves as it was\<close>

lemma sub_insert_size:
  assumes "sub_insert H s k v mp = Inr (ok, s')"
  shows "sub_size s' = sub_size s"
  using assms by (auto simp: sub_insert_def ebind_eq_Inr split: option.splits)

lemma last_insert_c_size:
  assumes "last_insert_c H la k v = Inr (ok, la')"
  shows "last_size la' = last_size la"
  using assms by (auto simp: last_insert_c_def ebind_eq_Inr Let_def split: option.splits)

lemma last_insert_size:
  assumes "last_insert H la k v = Inr (ok, la')"
  shows "last_size la' = last_size la"
  using assms
  by (auto simp: last_insert_def ebind_eq_Inr Let_def split: option.splits
      dest: last_insert_c_size)

lemma insert_existing_sizes:
  assumes "insert_existing H delta ss k v = Inr (Some (ok, ss'))"
  shows "map sub_size ss' = map sub_size ss"
  using assms
proof (induction ss arbitrary: ss')
  case Nil
  then show ?case by simp
next
  case (Cons s ss)
  then show ?case
    by (auto simp: ebind_eq_Inr split: if_splits dest: sub_insert_size)
qed

lemma insert_new_sizes:
  assumes "insert_new H delta ss k v = Inr (Some ss')"
  shows "map sub_size ss' = map sub_size ss"
  using assms
proof (induction ss arbitrary: ss')
  case Nil
  then show ?case by simp
next
  case (Cons s ss)
  then show ?case
    by (auto simp: ebind_eq_Inr split: if_splits dest: sub_insert_size)
qed

lemma insert_absent_frame:
  assumes "insert_absent H t k v = Inr (ok, t')"
  shows "tbl_size t' = tbl_size t \<and> tbl_delta t' = tbl_delta t
     \<and> map sub_size (subarrays t') = map sub_size (subarrays t)
     \<and> map_option last_size (last_array t') = map_option last_size (last_array t)
     \<and> (tbl_count t' = tbl_count t
          \<or> tbl_count t' = tbl_count t + 1 \<and> (\<exists>lf. load_factor t = Inr lf \<and> lf < 9 / 10))"
proof -
  obtain lf where lf: "load_factor t = Inr lf"
    using assms by (cases "load_factor t") (simp_all add: insert_absent_def)
  show ?thesis
  proof (cases "lf \<ge> 9 / 10")
    case True
    then have "t' = t" using assms lf by (simp add: insert_absent_def)
    then show ?thesis by simp
  next
    case low: False
    obtain placed where placed: "insert_new H (tbl_delta t) (subarrays t) k v = Inr placed"
      using assms lf low
      by (cases "insert_new H (tbl_delta t) (subarrays t) k v") (simp_all add: insert_absent_def)
    show ?thesis
    proof (cases placed)
      case (Some ss')
      then have "t' = t\<lparr>subarrays := ss', tbl_count := tbl_count t + 1\<rparr>"
        using assms lf low placed by (simp add: insert_absent_def)
      moreover have "map sub_size ss' = map sub_size (subarrays t)"
        using placed Some by (simp add: insert_new_sizes)
      ultimately show ?thesis using lf low by simp
    next
      case None
      show ?thesis
      proof (cases "last_array t")
        case no_last: None
        then have "t' = t" using assms lf low placed None by (simp add: insert_absent_def)
        then show ?thesis by simp
      next
        case (Some la)
        then obtain ok2 la' where l: "last_insert H la k v = Inr (ok2, la')"
          using assms lf low placed None
          by (cases "last_insert H la k v") (auto simp: insert_absent_def)
        then have size: "last_size la' = last_size la" by (rule last_insert_size)
        show ?thesis
        proof (cases ok2)
          case True
          then have "t' = t\<lparr>last_array := Some la', tbl_count := tbl_count t + 1\<rparr>"
            using assms lf low placed None Some l by (simp add: insert_absent_def)
          then show ?thesis using lf low Some size by simp
        next
          case False
          then have "t' = t\<lparr>last_array := Some la'\<rparr>"
            using assms lf low placed None Some l by (simp add: insert_absent_def)
          then show ?thesis using Some size by simp
        qed
      qed
    qed
  qed
qed

lemma tbl_insert_frame:
  assumes "tbl_insert H t k v = Inr (ok, t')"
  shows "tbl_size t' = tbl_size t \<and> tbl_delta t' = tbl_delta t
     \<and> map sub_size (subarrays t') = map sub_size (subarrays t)
     \<and> map_option last_size (last_array t') = map_option last_size (last_array t)
     \<and> (tbl_count t' = tbl_count t
          \<or> tbl_count t' = tbl_count t + 1 \<and> (\<exists>lf. load_factor t = Inr lf \<and> lf < 9 / 10))"
proof (cases "insert_existing H (tbl_delta t) (subarrays t) k v")
  case (Inl e)
  then show ?thesis using assms by (simp add: tbl_insert_def)
next
  case (Inr ex)
  show ?thesis
  proof (cases ex)
    case (Some p)
    then obtain ok1 ss' where p: "p = (ok1, ss')" by (cases p)
    then have "t' = t\<lparr>subarrays := ss'\<rparr>" using assms Inr Some by (simp add: tbl_insert_def)
    then show ?thesis using insert_existing_sizes Inr Some p by fastforce
  next
    case None
    show ?thesis
    proof (cases "last_array t")
      case no_last: None
      then have "insert_absent H t k v = Inr (ok, t')"
        using assms Inr None by (simp add: tbl_insert_def)
      then show ?thesis by (rule insert_absent_frame)
    next
      case (Some la)
      then obtain r where r: "last_search H la k = Inr r"
        using assms Inr None by (cases "last_search H la k") (simp_all add: tbl_insert_def)
      show ?thesis
      proof (cases "r = None")
        case True
        then have "insert_absent H t k v = Inr (ok, t')"
          using assms Inr None Some r by (simp add: tbl_insert_def)
        then show ?thesis by (rule insert_absent_frame)
      next
        case False
        then obtain la' where "last_insert H la k v = Inr (ok, la')"
          "t' = t\<lparr>last_array := Some la'\<rparr>"
          using assms Inr None Some r by (auto simp: tbl_insert_def ebind_eq_Inr)
        then show ?thesis using Some last_insert_size by fastforce
      qed
    qed
  qed
qed

text \<open>An insert keeps the shape of the table, whatever the equality of the keys.\<close>

lemma sub_insert_shape:
  assumes "sub_insert H s k v mp = Inr (ok, s')"
  shows "shape_sub s' = shape_sub s"
  using assms by (auto simp: sub_insert_def ebind_eq_Inr shape_sub_def split: option.splits)

lemma last_insert_c_shape:
  assumes "last_insert_c H la k v = Inr (ok, la')"
  shows "shape_last la' = shape_last la"
  using assms
  by (auto simp: last_insert_c_def ebind_eq_Inr Let_def shape_last_def split: option.splits)

lemma last_insert_shape:
  assumes "last_insert H la k v = Inr (ok, la')"
  shows "shape_last la' = shape_last la"
proof (cases "last_insert H la k v = last_insert_c H la k v")
  case True
  then have "last_insert_c H la k v = Inr (ok, la')" using assms by simp
  then show ?thesis by (rule last_insert_c_shape)
next
  case False
  then show ?thesis
    using assms
    by (auto simp: last_insert_def ebind_eq_Inr Let_def shape_last_def split: option.splits)
qed

lemma insert_existing_shapes:
  assumes "insert_existing H delta ss k v = Inr (Some (ok, ss'))"
  shows "map shape_sub ss' = map shape_sub ss"
  using assms
proof (induction ss arbitrary: ss')
  case Nil
  then show ?case by simp
next
  case (Cons s ss)
  then show ?case
    by (auto simp: ebind_eq_Inr split: if_splits dest: sub_insert_shape)
qed

lemma insert_new_shapes:
  assumes "insert_new H delta ss k v = Inr (Some ss')"
  shows "map shape_sub ss' = map shape_sub ss"
  using assms
proof (induction ss arbitrary: ss')
  case Nil
  then show ?case by simp
next
  case (Cons s ss)
  then show ?case
    by (auto simp: ebind_eq_Inr split: if_splits dest: sub_insert_shape)
qed

lemma insert_absent_shape:
  assumes "insert_absent H t k v = Inr (ok, t')"
  shows "tbl_delta t' = tbl_delta t
     \<and> map shape_sub (subarrays t') = map shape_sub (subarrays t)
     \<and> map_option shape_last (last_array t') = map_option shape_last (last_array t)"
proof -
  obtain lf where lf: "load_factor t = Inr lf"
    using assms by (cases "load_factor t") (simp_all add: insert_absent_def)
  show ?thesis
  proof (cases "lf \<ge> 9 / 10")
    case True
    then have "t' = t" using assms lf by (simp add: insert_absent_def)
    then show ?thesis by simp
  next
    case low: False
    obtain placed where placed: "insert_new H (tbl_delta t) (subarrays t) k v = Inr placed"
      using assms lf low
      by (cases "insert_new H (tbl_delta t) (subarrays t) k v") (simp_all add: insert_absent_def)
    show ?thesis
    proof (cases placed)
      case (Some ss')
      then have "t' = t\<lparr>subarrays := ss', tbl_count := tbl_count t + 1\<rparr>"
        using assms lf low placed by (simp add: insert_absent_def)
      moreover have "map shape_sub ss' = map shape_sub (subarrays t)"
        using placed Some by (simp add: insert_new_shapes)
      ultimately show ?thesis by simp
    next
      case None
      show ?thesis
      proof (cases "last_array t")
        case no_last: None
        then have "t' = t" using assms lf low placed None by (simp add: insert_absent_def)
        then show ?thesis by simp
      next
        case (Some la)
        then obtain ok2 la' where l: "last_insert H la k v = Inr (ok2, la')"
          using assms lf low placed None
          by (cases "last_insert H la k v") (auto simp: insert_absent_def)
        then have shape: "shape_last la' = shape_last la" by (rule last_insert_shape)
        show ?thesis
        proof (cases ok2)
          case True
          then have "t' = t\<lparr>last_array := Some la', tbl_count := tbl_count t + 1\<rparr>"
            using assms lf low placed None Some l by (simp add: insert_absent_def)
          then show ?thesis using Some shape by simp
        next
          case False
          then have "t' = t\<lparr>last_array := Some la'\<rparr>"
            using assms lf low placed None Some l by (simp add: insert_absent_def)
          then show ?thesis using Some shape by simp
        qed
      qed
    qed
  qed
qed

lemma tbl_insert_shape:
  assumes "tbl_insert H t k v = Inr (ok, t')"
  shows "tbl_delta t' = tbl_delta t
     \<and> map shape_sub (subarrays t') = map shape_sub (subarrays t)
     \<and> map_option shape_last (last_array t') = map_option shape_last (last_array t)"
proof (cases "insert_existing H (tbl_delta t) (subarrays t) k v")
  case (Inl e)
  then show ?thesis using assms by (simp add: tbl_insert_def)
next
  case (Inr ex)
  show ?thesis
  proof (cases ex)
    case (Some p)
    then obtain ok1 ss' where p: "p = (ok1, ss')" by (cases p)
    then have "t' = t\<lparr>subarrays := ss'\<rparr>" using assms Inr Some by (simp add: tbl_insert_def)
    moreover have "map shape_sub ss' = map shape_sub (subarrays t)"
      using Inr Some p by (simp add: insert_existing_shapes)
    ultimately show ?thesis by simp
  next
    case None
    show ?thesis
    proof (cases "last_array t")
      case no_last: None
      then have "insert_absent H t k v = Inr (ok, t')"
        using assms Inr None by (simp add: tbl_insert_def)
      then show ?thesis by (rule insert_absent_shape)
    next
      case (Some la)
      then obtain r where r: "last_search H la k = Inr r"
        using assms Inr None by (cases "last_search H la k") (simp_all add: tbl_insert_def)
      show ?thesis
      proof (cases "r = None")
        case True
        then have "insert_absent H t k v = Inr (ok, t')"
          using assms Inr None Some r by (simp add: tbl_insert_def)
        then show ?thesis by (rule insert_absent_shape)
      next
        case False
        then obtain la' where la': "last_insert H la k v = Inr (ok, la')"
          "t' = t\<lparr>last_array := Some la'\<rparr>"
          using assms Inr None Some r by (auto simp: tbl_insert_def ebind_eq_Inr)
        from la'(1) have "shape_last la' = shape_last la" by (rule last_insert_shape)
        then show ?thesis using Some la'(2) by simp
      qed
    qed
  qed
qed

lemma same_shape_tbl:
  assumes "tbl_delta t' = tbl_delta t"
    and "map shape_sub (subarrays t') = map shape_sub (subarrays t)"
    and "map_option shape_last (last_array t') = map_option shape_last (last_array t)"
  shows "shape_tbl H t' = shape_tbl H t"
proof -
  have "length (map shape_sub (subarrays t')) = length (map shape_sub (subarrays t))"
    using assms(2) by simp
  then have e: "subarrays t' = [] \<longleftrightarrow> subarrays t = []" by auto
  have "set (map shape_sub (subarrays t')) = set (map shape_sub (subarrays t))"
    using assms(2) by simp
  then have "shape_sub ` set (subarrays t') = shape_sub ` set (subarrays t)" by simp
  then have s: "(\<forall>s\<in>set (subarrays t'). shape_sub s) \<longleftrightarrow> (\<forall>s\<in>set (subarrays t). shape_sub s)"
    by (metis (full_types) imageE imageI)
  have l: "(\<forall>la. last_array t' = Some la \<longrightarrow> shape_last la)
      \<longleftrightarrow> (\<forall>la. last_array t = Some la \<longrightarrow> shape_last la)"
    using assms(3) by (cases "last_array t'"; cases "last_array t") auto
  show ?thesis unfolding shape_tbl_def e s l assms(1) ..
qed

subsection \<open>Sequences of inserts\<close>

lemma insert_all_shape: "shape_tbl H (insert_all H t ops) = shape_tbl H t"
proof (induction ops arbitrary: t)
  case Nil
  show ?case by simp
next
  case (Cons kv ops)
  obtain k v where kv: "kv = (k, v)" by (cases kv)
  show ?case
  proof (cases "tbl_insert H t k v")
    case (Inl e)
    then show ?thesis using Cons kv by simp
  next
    case (Inr r)
    obtain ok t' where r: "r = (ok, t')" by (cases r)
    from tbl_insert_shape [of H t k v ok t'] Inr r
    have "shape_tbl H t' = shape_tbl H t" by (intro same_shape_tbl) simp_all
    then show ?thesis using Cons [of t'] Inr r kv by simp
  qed
qed

lemma insert_all_frame:
  "tbl_size (insert_all H t ops) = tbl_size t \<and> tbl_delta (insert_all H t ops) = tbl_delta t
     \<and> map sub_size (subarrays (insert_all H t ops)) = map sub_size (subarrays t)
     \<and> map_option last_size (last_array (insert_all H t ops)) = map_option last_size (last_array t)"
proof (induction ops arbitrary: t)
  case Nil
  show ?case by simp
next
  case (Cons kv ops)
  obtain k v where kv: "kv = (k, v)" by (cases kv)
  show ?case
  proof (cases "tbl_insert H t k v")
    case (Inl e)
    then show ?thesis using Cons kv by simp
  next
    case (Inr r)
    obtain ok t' where r: "r = (ok, t')" by (cases r)
    from tbl_insert_frame [of H t k v ok t'] Inr r Cons [of t'] show ?thesis
      using kv by simp
  qed
qed

lemma insert_all_count:
  assumes "0 < tbl_size t" "10 * int (tbl_count t) < 9 * tbl_size t + 10"
  shows "10 * int (tbl_count (insert_all H t ops)) < 9 * tbl_size t + 10"
  using assms
proof (induction ops arbitrary: t)
  case Nil
  then show ?case by simp
next
  case (Cons kv ops)
  obtain k v where kv: "kv = (k, v)" by (cases kv)
  show ?case
  proof (cases "tbl_insert H t k v")
    case (Inl e)
    then show ?thesis using Cons kv by simp
  next
    case (Inr r)
    obtain ok t' where r: "r = (ok, t')" by (cases r)
    from tbl_insert_frame [of H t k v ok t'] Inr r
    have size: "tbl_size t' = tbl_size t"
      and count: "tbl_count t' = tbl_count t
        \<or> tbl_count t' = tbl_count t + 1 \<and> (\<exists>lf. load_factor t = Inr lf \<and> lf < 9 / 10)"
      by simp_all
    have "10 * int (tbl_count t') < 9 * tbl_size t' + 10"
    proof (cases "tbl_count t' = tbl_count t")
      case True
      then show ?thesis using Cons.prems size by simp
    next
      case False
      then obtain lf where lf: "tbl_count t' = tbl_count t + 1" "load_factor t = Inr lf"
        "lf < 9 / 10" using count by blast
      have "lf = of_nat (tbl_count t) / of_int (tbl_size t)"
        using lf(2) by (auto simp: load_factor_def split: if_splits)
      then have "(of_nat (tbl_count t) :: rat) / of_int (tbl_size t) < 9 / 10" using lf(3) by simp
      then have "(of_nat (tbl_count t) :: rat) * 10 < 9 * of_int (tbl_size t)"
        using Cons.prems(1) by (simp add: divide_simps)
      then have "(of_int (int (tbl_count t) * 10) :: rat) < of_int (9 * tbl_size t)" by simp
      then have "int (tbl_count t) * 10 < 9 * tbl_size t" by (simp only: of_int_less_iff)
      then show ?thesis using lf(1) size by simp
    qed
    with Cons.IH [of t'] size Cons.prems(1) have
      "10 * int (tbl_count (insert_all H t' ops)) < 9 * tbl_size t + 10" by simp
    then show ?thesis using Inr r kv by simp
  qed
qed

lemma stuck_insert_all: "stuck H t \<Longrightarrow> insert_all H t ops = t"
proof (induction ops)
  case Nil
  show ?case by simp
next
  case (Cons kv ops)
  obtain k v where kv: "kv = (k, v)" by (cases kv)
  from Cons.prems obtain e where "tbl_insert H t k v = Inl e" by (auto simp: stuck_def)
  then show ?case using Cons kv by simp
qed



lemma insert_existing_none:
  assumes "ss = [] \<or> (\<exists>mp. int_log2_inv H delta = Inr mp)"
    and "\<forall>s\<in>set ss. shape_sub s" "\<forall>k'\<in>tier_keys ss. \<not> key_eq H k' k"
  shows "insert_existing H delta ss k v = Inr None"
proof (cases "ss = []")
  case True
  then show ?thesis by simp
next
  case False
  then obtain mp where mp: "int_log2_inv H delta = Inr mp" using assms(1) by blast
  show ?thesis
    using assms(2,3)
  proof (induction ss)
    case Nil
    show ?case by simp
  next
    case (Cons s ss)
    then have "shape_sub s" "\<forall>k'\<in>keys_of (sub_table s). \<not> key_eq H k' k" by simp_all
    then have "sub_search H s k = Inr None" by (rule sub_search_none)
    then show ?case using Cons mp by simp
  qed
qed

section \<open>The probe sequence\<close>

text \<open>
  C9. For a sub-array of capacity at least 2, \<open>sub_hash\<close> returns the probe position
  \<open>(h1 + i * h2) mod capacity\<close> of the specification, a valid index. It reads the
  capacity only, neither the slots nor the count, so two sub-array states of the same
  capacity (the one that insert sees and the one that search sees) give the same
  position for the same key and attempt.
\<close>

theorem sub_hash_probe_sequence:
  assumes "2 \<le> sub_size s"
  shows "sub_hash H s key i =
           Inr (nat (probe_position (hash_key H key) (hash_str H key) (int (sub_size s)) (int i)))
         \<and> 0 \<le> probe_position (hash_key H key) (hash_str H key) (int (sub_size s)) (int i)
         \<and> probe_position (hash_key H key) (hash_str H key) (int (sub_size s)) (int i)
             < int (sub_size s)
         \<and> (sub_size s' = sub_size s \<longrightarrow> sub_hash H s' key i = sub_hash H s key i)"
  using assms by (simp add: sub_hash_def probe_position_def)

theorem sub_hash_probe_sequence_witness:
  "sub_hash (ex_runtime\<lparr>hash_str := (\<lambda>k. 7)\<rparr>) (SubArray 5 :: (int, nat) subarray) 13 2 = Inr 1"
  using sub_hash_probe_sequence
    [of "SubArray 5 :: (int, nat) subarray" "ex_runtime\<lparr>hash_str := (\<lambda>k. 7)\<rparr>"
        13 2 "SubArray 5 :: (int, nat) subarray"]
  by (simp add: SubArray_def probe_position_def ex_runtime_def)

section \<open>The two candidate buckets\<close>

text \<open>
  C10. When part C has at least two buckets, \<open>hash_c\<close> returns two valid bucket indices
  and they differ.
\<close>

theorem hash_c_distinct:
  assumes "2 \<le> length (part_c la)"
  shows "\<exists>b1 b2. hash_c H la key = Inr (b1, b2) \<and> b1 \<noteq> b2
            \<and> b1 < length (part_c la) \<and> b2 < length (part_c la)"
proof -
  define n where "n = int (length (part_c la))"
  define h1 where "h1 = hash_key H key mod n"
  define d where "d = 1 + hash_str H key mod (n - 1)"
  define h2 where "h2 = (h1 + d) mod n"
  have n: "2 \<le> n" using assms by (simp add: n_def)
  have h1: "0 \<le> h1" "h1 < n" using n by (simp_all add: h1_def)
  have "0 \<le> hash_str H key mod (n - 1)" "hash_str H key mod (n - 1) < n - 1"
    using n by simp_all
  then have d: "0 < d" "d < n" by (simp_all add: d_def)
  have h2: "0 \<le> h2" "h2 < n" using n by (simp_all add: h2_def)
  have ne: "h2 \<noteq> h1"
  proof
    assume "h2 = h1"
    then have "(h1 + d) mod n = h1 mod n" using h1 by (simp add: h2_def)
    then have "n dvd d" by (metis add_diff_cancel_left' mod_eq_dvd_iff)
    then show False using d by (simp add: zdvd_not_zless)
  qed
  have "hash_c H la key = Inr (nat h1, nat h2)"
  proof -
    have "n \<noteq> 0" "n - 1 \<noteq> 0" using n by simp_all
    then show ?thesis
      unfolding hash_c_def Let_def n_def [symmetric]
      by (simp add: h1_def h2_def d_def add.assoc)
  qed
  moreover have "nat h1 \<noteq> nat h2" using ne h1 h2 by simp
  moreover have "nat h1 < length (part_c la)" "nat h2 < length (part_c la)"
    using h1 h2 by (simp_all add: n_def)
  ultimately show ?thesis by blast
qed

theorem hash_c_distinct_witness:
  "hash_c (ex_runtime\<lparr>hash_str := (\<lambda>k. 7)\<rparr>)
     (\<lparr>last_size = 5, b_size = 2, c_size = 3, bucket_size = 2, part_b = [None, None],
       part_c = [[None, None], [None, None]], last_count = 0\<rparr> :: (int, nat) lastsubarray) 3
   = Inr (1, 0)"
  using hash_c_distinct
    [of "\<lparr>last_size = 5, b_size = 2, c_size = 3, bucket_size = 2, part_b = [None, None],
          part_c = [[None, None], [None, None]], last_count = 0\<rparr> :: (int, nat) lastsubarray"
        "ex_runtime\<lparr>hash_str := (\<lambda>k. 7)\<rparr>" 3]
  by (simp add: hash_c_def ex_runtime_def)

section \<open>Round trip\<close>


text \<open>
  Nor does it hold for two keys that are equal and have different strings. After
  \<^verbatim>\<open>insert(1, 10)\<close>, the call \<^verbatim>\<open>insert(1.0, 20)\<close> finds the slot of \<^verbatim>\<open>1\<close>, because
  \<^verbatim>\<open>1 == 1.0\<close> and the hashes of the two are equal, and overwrites it: \<^verbatim>\<open>search(1)\<close> then
  returns 20, with no insert of the key \<^verbatim>\<open>1\<close> in between.
\<close>

lemma round_trip_equal_keys_example:
  "tbl_search num_runtime
     (insert_all num_runtime num_table_5 [(IntKey 1, Some 10), (FloatKey 1, Some 20)])
     (IntKey 1) = Inr (Some 20)"
  by code_simp



section \<open>The load factor\<close>

text \<open>
  C5, as the specification states it, fails: a table of capacity 5 (and \<open>delta = 1/2\<close>, so
  that it has the last sub-array only) accepts five distinct keys, since the load factor
  before the fifth insert is \<open>4/5 < 0.9\<close>, and its load factor is then exactly 1.
\<close>

theorem load_factor_counterexample:
  "init ex_runtime 5 (1 / 2) = Inr ex_table_5
   \<and> load_factor (insert_all ex_runtime ex_table_5
        [(0, Some 0), (1, Some 1), (2, Some 2), (3, Some 3), (4, Some 4)]) = Inr 1"
  by code_simp

text \<open>
  C5, amended. For every table constructed with a capacity of at least 10, and after every
  sequence of inserts, the load factor is defined, non-negative and strictly below 1.
\<close>

theorem load_factor_below_one:
  assumes "init H n delta = Inr t0" "10 \<le> n"
  shows "\<exists>lf. load_factor (insert_all H t0 ops) = Inr lf \<and> 0 \<le> lf \<and> lf < 1"
proof -
  let ?t = "insert_all H t0 ops"
  note f = init_fields [OF assms(1)]
  have size: "tbl_size ?t = n" using insert_all_frame [of H t0 ops] f(1) by simp
  have "10 * int (tbl_count ?t) < 9 * tbl_size t0 + 10"
    by (rule insert_all_count) (use f assms(2) in simp_all)
  then have "int (tbl_count ?t) < n" using f(1) assms(2) by simp
  then have "(of_int (int (tbl_count ?t)) :: rat) < of_int n" by (simp only: of_int_less_iff)
  then have "(of_nat (tbl_count ?t) :: rat) / of_int n < 1" using assms(2) by simp
  moreover have "0 \<le> (of_nat (tbl_count ?t) :: rat) / of_int n" using assms(2) by simp
  ultimately show ?thesis using size assms(2) by (simp add: load_factor_def)
qed

theorem load_factor_below_one_witness:
  "\<exists>lf. load_factor (insert_all ex_runtime ex_table_10
      [(0, Some 0), (1, Some 1), (2, Some 2), (3, None), (3, None)]) = Inr lf \<and> 0 \<le> lf \<and> lf < 1"
proof -
  have h1: "init ex_runtime 10 (1 / 10) = Inr ex_table_10" by code_simp
  have h2: "(10 :: int) \<le> 10" by simp
  from load_factor_below_one [OF h1 h2] show ?thesis .
qed

section \<open>The high-water mark\<close>

text \<open>
  C6. In every state that a constructed table reaches, if no slot of any tier holds a key
  equal to the key (\<^verbatim>\<open>stored == key\<close> is false for every stored key) and the load factor
  is at least 0.9, then insert returns \<^verbatim>\<open>False\<close> and the table it leaves is the table it
  found: every slot, every count and the load factor are as before. The equality of the
  keys, the hash functions and the two logarithms of the runtime are arbitrary.
\<close>

theorem high_water_refusal:
  assumes "init H n delta = Inr t0"
    and "\<forall>k'\<in>table_keys (insert_all H t0 ops). \<not> key_eq H k' k"
    and "load_factor (insert_all H t0 ops) = Inr lf" "9 / 10 \<le> lf"
  shows "tbl_insert H (insert_all H t0 ops) k v = Inr (False, insert_all H t0 ops)"
proof -
  let ?t = "insert_all H t0 ops"
  from init_shape_or_stuck [OF assms(1)] have "shape_tbl H t0"
  proof (elim disjE conjE)
    assume st: "stuck H t0"
    then have "?t = t0" by (rule stuck_insert_all)
    then have "tbl_count ?t = 0" using st by (simp add: stuck_def)
    then have "lf = 0" using assms(3) by (auto simp: load_factor_def split: if_splits)
    then show ?thesis using assms(4) by simp
  qed
  then have "shape_tbl H ?t" by (simp add: insert_all_shape)
  then have mp: "subarrays ?t = [] \<or> (\<exists>mp. int_log2_inv H (tbl_delta ?t) = Inr mp)"
    and subs: "\<forall>s\<in>set (subarrays ?t). shape_sub s"
    and last: "\<forall>la. last_array ?t = Some la \<longrightarrow> shape_last la"
    by (simp_all add: shape_tbl_def)
  have absent: "\<forall>k'\<in>tier_keys (subarrays ?t). \<not> key_eq H k' k"
    "\<forall>k'\<in>last_keys_opt (last_array ?t). \<not> key_eq H k' k"
    using assms(2) by (simp_all add: table_keys_def)
  have ex: "insert_existing H (tbl_delta ?t) (subarrays ?t) k v = Inr None"
    using mp subs absent(1) by (rule insert_existing_none)
  have ia: "insert_absent H ?t k v = Inr (False, ?t)"
    using assms(3,4) by (simp add: insert_absent_def)
  show ?thesis
  proof (cases "last_array ?t")
    case None
    then show ?thesis using ex ia by (simp add: tbl_insert_def)
  next
    case (Some la)
    then have "shape_last la" "\<forall>k'\<in>last_keys la. \<not> key_eq H k' k"
      using last absent(2) by (simp_all add: last_keys_opt_def)
    then have "last_search H la k = Inr None" by (rule last_search_none)
    then show ?thesis using ex ia Some by (simp add: tbl_insert_def)
  qed
qed

theorem high_water_refusal_witness:
  "tbl_insert ex_runtime
     (insert_all ex_runtime ex_table_5
        [(0, Some 0), (1, Some 1), (2, Some 2), (3, Some 3), (4, Some 4)]) 7 (Some 7)
   = Inr (False, insert_all ex_runtime ex_table_5
        [(0, Some 0), (1, Some 1), (2, Some 2), (3, Some 3), (4, Some 4)])"
proof -
  let ?ops = "[(0, Some 0), (1, Some 1), (2, Some 2), (3, Some 3), (4, Some 4)]
    :: (int \<times> nat option) list"
  have h1: "init ex_runtime 5 (1 / 2) = Inr ex_table_5" by code_simp
  have t: "insert_all ex_runtime ex_table_5 ?ops =
     \<lparr>tbl_size = 5, tbl_delta = 1 / 2, tbl_count = 5, tbl_alpha = 0, subarrays = [],
      last_array = Some \<lparr>last_size = 5, b_size = 2, c_size = 3, bucket_size = 2,
        part_b = [Some (0, Some 0), Some (1, Some 1)],
        part_c = [[Some (2, Some 2), Some (4, Some 4)], [Some (3, Some 3), None]],
        last_count = 5\<rparr>\<rparr>"
    by code_simp
  have h2: "\<forall>k'\<in>table_keys (insert_all ex_runtime ex_table_5 ?ops). \<not> key_eq ex_runtime k' 7"
    unfolding t
    by (auto simp: table_keys_def last_keys_opt_def last_keys_def keys_of_def ex_runtime_def)
  have h3: "load_factor (insert_all ex_runtime ex_table_5 ?ops) = Inr 1" by code_simp
  have h4: "(9 / 10 :: rat) \<le> 1" by simp
  from high_water_refusal [OF h1 h2 h3 h4] show ?thesis .
qed

end
